theory Spec2Isabelle
  imports Complex_Main
begin

section \<open>The SHARC stereo delay line (PluginProcessor.h)\<close>

text \<open>
  The embedding follows \<^verbatim>\<open>class SharcDelayLine\<close>. Samples (\<^verbatim>\<open>float\<close>) are
  modelled as exact reals, the \<^verbatim>\<open>int\<close> fields and counters as unbounded integers.
  The two \<^verbatim>\<open>std::vector<float>\<close> delay lines are lists owned by the engine; an
  access outside a vector has no defined behaviour in C++ and is the error
  \<open>OutOfBounds\<close> here. The caller's audio data are raw \<^verbatim>\<open>float*\<close> pointers, so
  they live in one flat sample memory (an address is an integer, counted in
  samples), which keeps every overlap between the input and the output arrays.
\<close>

subsection \<open>Library functions used by the class\<close>

datatype error = OutOfBounds | ConversionOverflow | LengthError

text \<open>\<^verbatim>\<open>juce::jlimit\<close>, \<^verbatim>\<open>juce::jmin\<close>, \<^verbatim>\<open>juce::jmax\<close> as JUCE defines them.\<close>

definition jlimit :: "'a::linorder \<Rightarrow> 'a \<Rightarrow> 'a \<Rightarrow> 'a" where
  "jlimit lowerLimit upperLimit valueToConstrain =
     (if valueToConstrain < lowerLimit then lowerLimit
      else if upperLimit < valueToConstrain then upperLimit
      else valueToConstrain)"

definition jmin :: "'a::linorder \<Rightarrow> 'a \<Rightarrow> 'a" where
  "jmin a b = (if b < a then b else a)"

definition jmax :: "'a::linorder \<Rightarrow> 'a \<Rightarrow> 'a" where
  "jmax a b = (if a < b then b else a)"

text \<open>
  \<^verbatim>\<open>static_cast<int>\<close> of a floating-point value drops the fraction (it truncates
  toward zero); the conversion is undefined when the result does not fit a 32-bit
  \<^verbatim>\<open>int\<close>.
\<close>

definition truncate_toward_zero :: "real \<Rightarrow> int" where
  "truncate_toward_zero x = (if 0 \<le> x then \<lfloor>x\<rfloor> else \<lceil>x\<rceil>)"

definition static_cast_int :: "real \<Rightarrow> error + int" where
  "static_cast_int x =
     (let t = truncate_toward_zero x
      in if - 2147483648 \<le> t \<and> t \<le> 2147483647 then Inr t else Inl ConversionOverflow)"

text \<open>The C++ operators \<^verbatim>\<open>/\<close> and \<^verbatim>\<open>%\<close> on \<^verbatim>\<open>int\<close>: the quotient is truncated
  toward zero and the remainder takes the sign of the dividend.\<close>

definition cpp_div :: "int \<Rightarrow> int \<Rightarrow> int" where
  "cpp_div a b = sgn a * sgn b * (\<bar>a\<bar> div \<bar>b\<bar>)"

definition cpp_mod :: "int \<Rightarrow> int \<Rightarrow> int" where
  "cpp_mod a b = a - b * cpp_div a b"

text \<open>\<^verbatim>\<open>std::vector<float>::resize\<close>: keeps the leading elements, appends zeros.\<close>

definition vector_resize :: "nat \<Rightarrow> real list \<Rightarrow> real list" where
  "vector_resize n xs = take n xs @ replicate (n - length xs) 0"

subsection \<open>The engine state and its lifecycle\<close>

record SharcDelayLine =
  delayLineLeft :: "real list"
  delayLineRight :: "real list"
  maxDelaySamples :: int
  delaySamples :: int
  delayIndex :: int
  feedback :: real
  wetMix :: real
  dryMix :: real
  sRate :: real
  prepared :: bool

text \<open>The member initialisers of the class (\<^verbatim>\<open>SharcDelayLine() = default\<close>).\<close>

definition SharcDelayLine_default :: SharcDelayLine where
  "SharcDelayLine_default =
     \<lparr>delayLineLeft = [], delayLineRight = [], maxDelaySamples = 240000,
      delaySamples = 48000, delayIndex = 0, feedback = 3 / 10, wetMix = 1 / 2,
      dryMix = 1 / 2, sRate = 48000, prepared = False\<rparr>"

definition reset :: "SharcDelayLine \<Rightarrow> SharcDelayLine" where
  "reset e =
     e\<lparr>delayLineLeft := map (\<lambda>_. 0) (delayLineLeft e),
       delayLineRight := map (\<lambda>_. 0) (delayLineRight e),
       delayIndex := 0\<rparr>"

text \<open>
  \<^verbatim>\<open>prepare\<close>: a negative \<^verbatim>\<open>maxDelaySamples\<close> converts to a huge \<^verbatim>\<open>size_t\<close>, for
  which \<^verbatim>\<open>resize\<close> throws \<^verbatim>\<open>std::length_error\<close>.
\<close>

definition prepare :: "real \<Rightarrow> real \<Rightarrow> SharcDelayLine \<Rightarrow> error + SharcDelayLine" where
  "prepare sRate' maxDelaySeconds e =
     (case static_cast_int (sRate' * maxDelaySeconds) of
        Inl err \<Rightarrow> Inl err
      | Inr m \<Rightarrow>
          if m < 0 then Inl LengthError
          else Inr ((reset (e\<lparr>sRate := sRate', maxDelaySamples := m,
                             delayLineLeft := vector_resize (nat m) (delayLineLeft e),
                             delayLineRight := vector_resize (nat m) (delayLineRight e)\<rparr>))
                    \<lparr>prepared := True\<rparr>))"

definition setDelaySeconds :: "real \<Rightarrow> SharcDelayLine \<Rightarrow> error + SharcDelayLine" where
  "setDelaySeconds seconds e =
     (case static_cast_int (seconds * sRate e) of
        Inl err \<Rightarrow> Inl err
      | Inr k \<Rightarrow> Inr (e\<lparr>delaySamples := jlimit 1 (maxDelaySamples e) k\<rparr>))"

definition setFeedback :: "real \<Rightarrow> SharcDelayLine \<Rightarrow> SharcDelayLine" where
  "setFeedback fb e = e\<lparr>feedback := jlimit 0 (99 / 100) fb\<rparr>"

definition setWetMix :: "real \<Rightarrow> SharcDelayLine \<Rightarrow> SharcDelayLine" where
  "setWetMix wet e = e\<lparr>wetMix := jlimit 0 1 wet\<rparr>"

definition setDryMix :: "real \<Rightarrow> SharcDelayLine \<Rightarrow> SharcDelayLine" where
  "setDryMix dry e = e\<lparr>dryMix := jlimit 0 1 dry\<rparr>"

subsection \<open>Block processing: the state of the loops\<close>

text \<open>
  \<open>heap\<close> is the caller's sample memory; \<open>bufferLeft\<close>, \<open>bufferRight\<close> and \<open>idx\<close>
  are the locals of the same names; the four pointers are the arguments (the SIMD
  path advances them, the scalar path indexes them).
\<close>

record proc_state =
  heap :: "int \<Rightarrow> real"
  bufferLeft :: "real list"
  bufferRight :: "real list"
  idx :: int
  inputLeft :: int
  inputRight :: int
  outputLeft :: int
  outputRight :: int

definition buf_read :: "real list \<Rightarrow> int \<Rightarrow> error + real" where
  "buf_read b i = (if 0 \<le> i \<and> i < int (length b) then Inr (b ! nat i) else Inl OutOfBounds)"

text \<open>
  Lines 86 to 100 (and 185 to 195): one sample at input offset \<open>i\<close>. The input is
  read again after the outputs are written, as the source does; the cursor and
  the pointers are left to the enclosing loop.
\<close>

definition process_sample :: "SharcDelayLine \<Rightarrow> int \<Rightarrow> proc_state \<Rightarrow> error + proc_state" where
  "process_sample e i s =
     (case buf_read (bufferLeft s) (idx s) of
        Inl err \<Rightarrow> Inl err
      | Inr delayedLeft \<Rightarrow>
     (case buf_read (bufferRight s) (idx s) of
        Inl err \<Rightarrow> Inl err
      | Inr delayedRight \<Rightarrow>
          let h1 = (heap s)(outputLeft s + i :=
                     heap s (inputLeft s + i) * dryMix e + delayedLeft * wetMix e);
              h2 = h1(outputRight s + i :=
                     h1 (inputRight s + i) * dryMix e + delayedRight * wetMix e);
              newLeft = h2 (inputLeft s + i) + feedback e * delayedLeft;
              newRight = h2 (inputRight s + i) + feedback e * delayedRight
          in Inr (s\<lparr>heap := h2,
                    bufferLeft := (bufferLeft s)[nat (idx s) := jlimit (- 1) 1 newLeft],
                    bufferRight := (bufferRight s)[nat (idx s) := jlimit (- 1) 1 newRight]\<rparr>)))"

subsection \<open>The scalar path\<close>

function scalar_loop :: "SharcDelayLine \<Rightarrow> int \<Rightarrow> int \<Rightarrow> proc_state \<Rightarrow> error + proc_state" where
  "scalar_loop e i numSamples s =
     (if i < numSamples then
        (case process_sample e i s of
           Inl err \<Rightarrow> Inl err
         | Inr s' \<Rightarrow>
             scalar_loop e (i + 1) numSamples
               (s'\<lparr>idx := (if idx s' + 1 \<ge> delaySamples e then 0 else idx s' + 1)\<rparr>))
      else Inr s)"
  by pat_completeness auto
termination
  by (relation "measure (\<lambda>(e, i, numSamples, s). nat (numSamples - i))") auto

declare scalar_loop.simps [simp del]

definition enter :: "SharcDelayLine \<Rightarrow> (int \<Rightarrow> real) \<Rightarrow> int \<Rightarrow> int \<Rightarrow> int \<Rightarrow> int \<Rightarrow> proc_state" where
  "enter e h inL inR outL outR =
     \<lparr>heap = h, bufferLeft = delayLineLeft e, bufferRight = delayLineRight e,
      idx = delayIndex e, inputLeft = inL, inputRight = inR,
      outputLeft = outL, outputRight = outR\<rparr>"

definition leave :: "SharcDelayLine \<Rightarrow> proc_state \<Rightarrow> (int \<Rightarrow> real) \<times> SharcDelayLine" where
  "leave e s =
     (heap s, e\<lparr>delayLineLeft := bufferLeft s, delayLineRight := bufferRight s,
                delayIndex := idx s\<rparr>)"

definition processBlockScalar ::
  "SharcDelayLine \<Rightarrow> (int \<Rightarrow> real) \<Rightarrow> int \<Rightarrow> int \<Rightarrow> int \<Rightarrow> int \<Rightarrow> int
     \<Rightarrow> error + ((int \<Rightarrow> real) \<times> SharcDelayLine)" where
  "processBlockScalar e h inL inR outL outR numSamples =
     (if \<not> prepared e then Inr (h, e)
      else case scalar_loop e 0 numSamples (enter e h inL inR outL outR) of
             Inl err \<Rightarrow> Inl err
           | Inr s \<Rightarrow> Inr (leave e s))"

subsection \<open>The SIMD path\<close>

text \<open>
  A \<^verbatim>\<open>juce::dsp::SIMDRegister<float>\<close> is the list of its lanes; the vector width
  \<^verbatim>\<open>simdWidth\<close> (\<^verbatim>\<open>SIMDRegister::size()\<close>, fixed by the target) is the parameter
  \<open>W\<close>. \<open>fromRawArray\<close> and \<open>copyToRawArray\<close> move \<open>W\<close> consecutive samples of
  the caller's memory, \<open>buf_load\<close> and \<open>buf_store\<close> do the same on a delay line.
  The arithmetic operators, \<^verbatim>\<open>jmin\<close> and \<^verbatim>\<open>jmax\<close> work lane by lane.
  The alignment that the vector loads and stores may require of an address is
  not part of the model.
\<close>

definition fromRawArray :: "nat \<Rightarrow> (int \<Rightarrow> real) \<Rightarrow> int \<Rightarrow> real list" where
  "fromRawArray W h p = map (\<lambda>j. h (p + int j)) [0..<W]"

definition copyToRawArray :: "real list \<Rightarrow> int \<Rightarrow> (int \<Rightarrow> real) \<Rightarrow> (int \<Rightarrow> real)" where
  "copyToRawArray v p h = (\<lambda>a. if p \<le> a \<and> a < p + int (length v) then v ! nat (a - p) else h a)"

definition buf_load :: "nat \<Rightarrow> real list \<Rightarrow> int \<Rightarrow> error + real list" where
  "buf_load W b offset =
     (if 0 \<le> offset \<and> offset + int W \<le> int (length b)
      then Inr (take W (drop (nat offset) b)) else Inl OutOfBounds)"

definition buf_store :: "real list \<Rightarrow> int \<Rightarrow> real list \<Rightarrow> real list" where
  "buf_store v offset b = take (nat offset) b @ v @ drop (nat offset + length v) b"

definition simd_add :: "real list \<Rightarrow> real list \<Rightarrow> real list" where
  "simd_add a b = map2 (+) a b"

definition simd_mul :: "real list \<Rightarrow> real list \<Rightarrow> real list" where
  "simd_mul a b = map2 (*) a b"

definition simd_jmin :: "real list \<Rightarrow> real list \<Rightarrow> real list" where
  "simd_jmin a b = map2 min a b"

definition simd_jmax :: "real list \<Rightarrow> real list \<Rightarrow> real list" where
  "simd_jmax a b = map2 max a b"

text \<open>Lines 147 to 176: one vector group. Both input registers are loaded before
  the first output store; the stores into the delay lines reuse the offset of the
  loads, so they are in range once the loads are.\<close>

definition simd_group :: "nat \<Rightarrow> SharcDelayLine \<Rightarrow> int \<Rightarrow> proc_state \<Rightarrow> error + proc_state" where
  "simd_group W e chunk s =
     (let offset = idx s + chunk * int W;
          dryVec = replicate W (dryMix e);
          wetVec = replicate W (wetMix e);
          fbVec = replicate W (feedback e);
          clipMin = replicate W (- 1);
          clipMax = replicate W 1
      in case buf_load W (bufferLeft s) offset of
           Inl err \<Rightarrow> Inl err
         | Inr delayedLeftVec \<Rightarrow>
        (case buf_load W (bufferRight s) offset of
           Inl err \<Rightarrow> Inl err
         | Inr delayedRightVec \<Rightarrow>
             let inputLeftVec = fromRawArray W (heap s) (inputLeft s);
                 inputRightVec = fromRawArray W (heap s) (inputRight s);
                 outL = simd_add (simd_mul inputLeftVec dryVec) (simd_mul delayedLeftVec wetVec);
                 outR = simd_add (simd_mul inputRightVec dryVec) (simd_mul delayedRightVec wetVec);
                 h1 = copyToRawArray outL (outputLeft s) (heap s);
                 h2 = copyToRawArray outR (outputRight s) h1;
                 newL = simd_jmax clipMin (simd_jmin clipMax
                          (simd_add inputLeftVec (simd_mul delayedLeftVec fbVec)));
                 newR = simd_jmax clipMin (simd_jmin clipMax
                          (simd_add inputRightVec (simd_mul delayedRightVec fbVec)))
             in Inr (s\<lparr>heap := h2,
                       bufferLeft := buf_store newL offset (bufferLeft s),
                       bufferRight := buf_store newR offset (bufferRight s),
                       inputLeft := inputLeft s + int W,
                       inputRight := inputRight s + int W,
                       outputLeft := outputLeft s + int W,
                       outputRight := outputRight s + int W\<rparr>)))"

function chunk_loop ::
  "nat \<Rightarrow> SharcDelayLine \<Rightarrow> int \<Rightarrow> int \<Rightarrow> proc_state \<Rightarrow> error + proc_state" where
  "chunk_loop W e chunk simdChunks s =
     (if chunk < simdChunks then
        (case simd_group W e chunk s of
           Inl err \<Rightarrow> Inl err
         | Inr s' \<Rightarrow> chunk_loop W e (chunk + 1) simdChunks s')
      else Inr s)"
  by pat_completeness auto
termination
  by (relation "measure (\<lambda>(W, e, chunk, simdChunks, s). nat (simdChunks - chunk))") auto

declare chunk_loop.simps [simp del]

text \<open>Lines 183 to 202: the scalar tail of a segment.\<close>

function tail_loop :: "SharcDelayLine \<Rightarrow> int \<Rightarrow> int \<Rightarrow> proc_state \<Rightarrow> error + proc_state" where
  "tail_loop e i scalarTail s =
     (if i < scalarTail then
        (case process_sample e 0 s of
           Inl err \<Rightarrow> Inl err
         | Inr s' \<Rightarrow>
             tail_loop e (i + 1) scalarTail
               (s'\<lparr>inputLeft := inputLeft s' + 1, inputRight := inputRight s' + 1,
                   outputLeft := outputLeft s' + 1, outputRight := outputRight s' + 1,
                   idx := idx s' + 1\<rparr>))
      else Inr s)"
  by pat_completeness auto
termination
  by (relation "measure (\<lambda>(e, i, scalarTail, s). nat (scalarTail - i))") auto

declare tail_loop.simps [simp del]

text \<open>Lines 139 to 208: one pass through the body of the \<^verbatim>\<open>while\<close> loop. It returns
  the new \<^verbatim>\<open>samplesRemaining\<close> with the state.\<close>

definition samplesToEdge :: "SharcDelayLine \<Rightarrow> int \<Rightarrow> proc_state \<Rightarrow> int" where
  "samplesToEdge e samplesRemaining s = jmin samplesRemaining (delaySamples e - idx s)"

definition simd_segment ::
  "nat \<Rightarrow> SharcDelayLine \<Rightarrow> int \<Rightarrow> proc_state \<Rightarrow> error + (int \<times> proc_state)" where
  "simd_segment W e samplesRemaining s =
     (let toEdge = samplesToEdge e samplesRemaining s;
          simdChunks = cpp_div toEdge (int W);
          scalarTail = cpp_mod toEdge (int W)
      in case chunk_loop W e 0 simdChunks s of
           Inl err \<Rightarrow> Inl err
         | Inr s1 \<Rightarrow>
        (case tail_loop e 0 scalarTail (s1\<lparr>idx := idx s1 + simdChunks * int W\<rparr>) of
           Inl err \<Rightarrow> Inl err
         | Inr s2 \<Rightarrow>
             Inr (samplesRemaining - toEdge,
                  s2\<lparr>idx := (if idx s2 \<ge> delaySamples e then 0 else idx s2)\<rparr>)))"

text \<open>The \<^verbatim>\<open>while (samplesRemaining > 0)\<close> loop. Nothing in the source bounds its
  number of passes, so it is a partial function: \<open>None\<close> is a loop that never exits.\<close>

partial_function (option) simd_while ::
  "nat \<Rightarrow> SharcDelayLine \<Rightarrow> int \<Rightarrow> proc_state \<Rightarrow> (error + proc_state) option" where
  "simd_while W e samplesRemaining s =
     (if samplesRemaining > 0 then
        (case simd_segment W e samplesRemaining s of
           Inl err \<Rightarrow> Some (Inl err)
         | Inr (r, s') \<Rightarrow> simd_while W e r s')
      else Some (Inr s))"

definition processBlockSIMD ::
  "nat \<Rightarrow> SharcDelayLine \<Rightarrow> (int \<Rightarrow> real) \<Rightarrow> int \<Rightarrow> int \<Rightarrow> int \<Rightarrow> int \<Rightarrow> int
     \<Rightarrow> (error + ((int \<Rightarrow> real) \<times> SharcDelayLine)) option" where
  "processBlockSIMD W e h inL inR outL outR numSamples =
     (if \<not> prepared e then Some (Inr (h, e))
      else case simd_while W e numSamples (enter e h inL inR outL outR) of
             None \<Rightarrow> None
           | Some (Inl err) \<Rightarrow> Some (Inl err)
           | Some (Inr s) \<Rightarrow> Some (Inr (leave e s)))"

subsection \<open>The caller (PluginProcessor.cpp, \<^verbatim>\<open>processBlock\<close>)\<close>

text \<open>
  Lines 89 to 119. The parameter values read from the value tree are arguments.
  \<^verbatim>\<open>getReadPointer (c)\<close> and \<^verbatim>\<open>getWritePointer (c)\<close> of a \<^verbatim>\<open>juce::AudioBuffer\<close>
  both return the data pointer of channel \<open>c\<close>, so the engine is called with
  each output pointer equal to the input pointer of its channel (\<open>ch0\<close>, \<open>ch1\<close>).
\<close>

definition processBlock ::
  "nat \<Rightarrow> bool \<Rightarrow> real \<Rightarrow> real \<Rightarrow> real \<Rightarrow> real \<Rightarrow> bool \<Rightarrow> int \<Rightarrow> int \<Rightarrow> int
     \<Rightarrow> (int \<Rightarrow> real) \<Rightarrow> SharcDelayLine
     \<Rightarrow> (error + ((int \<Rightarrow> real) \<times> SharcDelayLine)) option" where
  "processBlock W bypass delaySeconds fb wet dry useSIMD ch0 ch1 numSamples h e =
     (if bypass then Some (Inr (h, e))
      else case setDelaySeconds delaySeconds e of
             Inl err \<Rightarrow> Some (Inl err)
           | Inr e1 \<Rightarrow>
               let e2 = setDryMix dry (setWetMix wet (setFeedback fb e1))
               in if useSIMD then processBlockSIMD W e2 h ch0 ch1 ch0 ch1 numSamples
                  else Some (processBlockScalar e2 h ch0 ch1 ch0 ch1 numSamples))"

subsection \<open>Concrete engines used in the examples\<close>

text \<open>The engine of the plug-in at 48 kHz: \<^verbatim>\<open>prepareToPlay\<close> calls
  \<^verbatim>\<open>delayLine.prepare (sampleRate, 5.0f)\<close> on the default-constructed object.\<close>

definition engine_48k :: SharcDelayLine where
  "engine_48k = projr (prepare 48000 5 SharcDelayLine_default)"

subsection \<open>Definitions used to state the properties\<close>

text \<open>A block processed in consecutive calls: each call continues where the
  previous one stopped, with the four pointers moved past the samples done.\<close>


fun scalar_chunks ::
  "SharcDelayLine \<Rightarrow> (int \<Rightarrow> real) \<Rightarrow> int \<Rightarrow> int \<Rightarrow> int \<Rightarrow> int \<Rightarrow> int list
     \<Rightarrow> error + ((int \<Rightarrow> real) \<times> SharcDelayLine)" where
  "scalar_chunks e h inL inR outL outR [] = Inr (h, e)"
| "scalar_chunks e h inL inR outL outR (n # ns) =
     (case processBlockScalar e h inL inR outL outR n of
        Inl err \<Rightarrow> Inl err
      | Inr (h', e') \<Rightarrow> scalar_chunks e' h' (inL + n) (inR + n) (outL + n) (outR + n) ns)"

definition shift :: "int \<Rightarrow> proc_state \<Rightarrow> proc_state" where
  "shift k s = s\<lparr>inputLeft := inputLeft s + k, inputRight := inputRight s + k,
                 outputLeft := outputLeft s + k, outputRight := outputRight s + k\<rparr>"

text \<open>A small engine for the examples: four samples of delay line, all in the loop.\<close>

definition engine_4 :: SharcDelayLine where
  "engine_4 =
     \<lparr>delayLineLeft = [0, 0, 0, 0], delayLineRight = [0, 0, 0, 0], maxDelaySamples = 4,
      delaySamples = 4, delayIndex = 0, feedback = 1 / 2, wetMix = 1 / 2,
      dryMix = 1 / 2, sRate = 4, prepared = True\<rparr>"

text \<open>Sample memory holding a unit impulse at address 0 and silence elsewhere.\<close>

definition impulse :: "int \<Rightarrow> real" where
  "impulse = (\<lambda>a. if a = 0 then 1 else 0)"

text \<open>The calls a host can make on an engine, and a sequence of them run in
  order (a failed call, or a SIMD call that does not return, ends the run). The
  sample memory is given with each processing call: the host refills it between
  blocks.\<close>


datatype call =
    SetDelaySeconds real
  | SetFeedback real
  | SetWetMix real
  | SetDryMix real
  | Reset
  | ProcessBlockScalar "int \<Rightarrow> real" int int int int int
  | ProcessBlockSIMD "int \<Rightarrow> real" int int int int int

fun do_call :: "nat \<Rightarrow> call \<Rightarrow> SharcDelayLine \<Rightarrow> SharcDelayLine option" where
  "do_call W (SetDelaySeconds seconds) e =
     (case setDelaySeconds seconds e of Inl err \<Rightarrow> None | Inr e' \<Rightarrow> Some e')"
| "do_call W (SetFeedback fb) e = Some (setFeedback fb e)"
| "do_call W (SetWetMix wet) e = Some (setWetMix wet e)"
| "do_call W (SetDryMix dry) e = Some (setDryMix dry e)"
| "do_call W Reset e = Some (reset e)"
| "do_call W (ProcessBlockScalar h inL inR outL outR numSamples) e =
     (case processBlockScalar e h inL inR outL outR numSamples of
        Inl err \<Rightarrow> None | Inr (h', e') \<Rightarrow> Some e')"
| "do_call W (ProcessBlockSIMD h inL inR outL outR numSamples) e =
     (case processBlockSIMD W e h inL inR outL outR numSamples of
        None \<Rightarrow> None | Some (Inl err) \<Rightarrow> None | Some (Inr (h', e')) \<Rightarrow> Some e')"

fun run_calls :: "nat \<Rightarrow> call list \<Rightarrow> SharcDelayLine \<Rightarrow> SharcDelayLine option" where
  "run_calls W [] e = Some e"
| "run_calls W (c # cs) e =
     (case do_call W c e of None \<Rightarrow> None | Some e' \<Rightarrow> run_calls W cs e')"

text \<open>A delay line is clipped when all its elements are in \<open>[-1, 1]\<close>.\<close>

definition clipped :: "real list \<Rightarrow> bool" where
  "clipped b = list_all (\<lambda>x. - 1 \<le> x \<and> x \<le> 1) b"

definition buffers_clipped :: "SharcDelayLine \<Rightarrow> bool" where
  "buffers_clipped e \<longleftrightarrow> clipped (delayLineLeft e) \<and> clipped (delayLineRight e)"

text \<open>\<open>advanced L m s s'\<close>: from \<open>s\<close> to \<open>s'\<close> the four pointers moved by \<open>m\<close>
  samples, the delay lines kept their lengths and their cells from \<open>L\<close> on, and the
  sample memory changed only inside the \<open>m\<close> samples at each output pointer.\<close>

definition advanced :: "int \<Rightarrow> int \<Rightarrow> proc_state \<Rightarrow> proc_state \<Rightarrow> bool" where
  "advanced L m s s' \<longleftrightarrow>
     inputLeft s' = inputLeft s + m \<and> inputRight s' = inputRight s + m
     \<and> outputLeft s' = outputLeft s + m \<and> outputRight s' = outputRight s + m
     \<and> length (bufferLeft s') = length (bufferLeft s)
     \<and> length (bufferRight s') = length (bufferRight s)
     \<and> drop (nat L) (bufferLeft s') = drop (nat L) (bufferLeft s)
     \<and> drop (nat L) (bufferRight s') = drop (nat L) (bufferRight s)
     \<and> (\<forall>a. \<not> (outputLeft s \<le> a \<and> a < outputLeft s + m)
            \<and> \<not> (outputRight s \<le> a \<and> a < outputRight s + m) \<longrightarrow> heap s' a = heap s a)"

text \<open>A state of the loops whose two delay lines are extended by further cells.\<close>

definition with_tails :: "real list \<Rightarrow> real list \<Rightarrow> proc_state \<Rightarrow> proc_state" where
  "with_tails ta tb t = t\<lparr>bufferLeft := bufferLeft t @ ta, bufferRight := bufferRight t @ tb\<rparr>"

text \<open>The engine cut down to the cells inside the loop: both vectors hold only
  their first \<open>delaySamples\<close> elements.\<close>

definition active_part :: "SharcDelayLine \<Rightarrow> SharcDelayLine" where
  "active_part e =
     e\<lparr>delayLineLeft := take (nat (delaySamples e)) (delayLineLeft e),
       delayLineRight := take (nat (delaySamples e)) (delayLineRight e)\<rparr>"

text \<open>The fields of the engine that the processing loops read.\<close>

definition same_params :: "SharcDelayLine \<Rightarrow> SharcDelayLine \<Rightarrow> bool" where
  "same_params e e' \<longleftrightarrow>
     feedback e' = feedback e \<and> wetMix e' = wetMix e \<and> dryMix e' = dryMix e
     \<and> delaySamples e' = delaySamples e"

text \<open>The small engine after a block of three samples (cursor 3), and then after
  the delay time was halved: the loop length is 2, the cursor still 3.\<close>

definition engine_stale :: SharcDelayLine where
  "engine_stale = projr (setDelaySeconds (1 / 2) (engine_4\<lparr>delayIndex := 3\<rparr>))"

text \<open>Sample memory holding 1 below address 20 and 0 from there on.\<close>

definition ramp :: "int \<Rightarrow> real" where
  "ramp = (\<lambda>a. if a < 20 then 1 else 0)"

text \<open>The values of \<^verbatim>\<open>samplesRemaining\<close> and of the state each time the body of the
  \<^verbatim>\<open>while\<close> loop is entered, for at most \<open>fuel\<close> passes.\<close>

fun while_heads ::
  "nat \<Rightarrow> nat \<Rightarrow> SharcDelayLine \<Rightarrow> int \<Rightarrow> proc_state \<Rightarrow> (int \<times> proc_state) list" where
  "while_heads 0 W e r s = []"
| "while_heads (Suc fuel) W e r s =
     (if 0 < r then
        (r, s) # (case simd_segment W e r s of
                    Inl err \<Rightarrow> []
                  | Inr (r', s') \<Rightarrow> while_heads fuel W e r' s')
      else [])"

text \<open>The four sample arrays of a block of \<open>n\<close> samples are separate when
  neither output array overlaps an input array or the other output array.\<close>

definition separate :: "int \<Rightarrow> int \<Rightarrow> int \<Rightarrow> int \<Rightarrow> int \<Rightarrow> bool" where
  "separate inL inR outL outR n \<longleftrightarrow>
     n \<le> \<bar>outL - inL\<bar> \<and> n \<le> \<bar>outL - inR\<bar> \<and> n \<le> \<bar>outR - inL\<bar> \<and> n \<le> \<bar>outR - inR\<bar>
     \<and> n \<le> \<bar>outL - outR\<bar>"

definition separate_state :: "proc_state \<Rightarrow> int \<Rightarrow> bool" where
  "separate_state s n = separate (inputLeft s) (inputRight s) (outputLeft s) (outputRight s) n"

text \<open>The layouts in which no store of a block destroys a sample of the block
  that is still to be read or that was already written: the two output arrays
  do not overlap each other or the input array of the other channel, and the
  output array of a channel is its input array (processing in place, as
  \<open>processBlock\<close> calls the engine) or does not overlap it.\<close>

definition in_place_or_separate :: "int \<Rightarrow> int \<Rightarrow> int \<Rightarrow> int \<Rightarrow> int \<Rightarrow> bool" where
  "in_place_or_separate inL inR outL outR n \<longleftrightarrow>
     (outL = inL \<or> n \<le> \<bar>outL - inL\<bar>) \<and> (outR = inR \<or> n \<le> \<bar>outR - inR\<bar>)
     \<and> n \<le> \<bar>outL - inR\<bar> \<and> n \<le> \<bar>outR - inL\<bar> \<and> n \<le> \<bar>outL - outR\<bar>"

definition layout_ok :: "proc_state \<Rightarrow> int \<Rightarrow> bool" where
  "layout_ok s n =
     in_place_or_separate (inputLeft s) (inputRight s) (outputLeft s) (outputRight s) n"

text \<open>From state \<open>s\<close> to state \<open>s'\<close> the \<open>m\<close> samples at the output pointers
  of \<open>s\<close> were written: sample \<open>k\<close> of each channel is the mix of the input
  sample \<open>k\<close> as it was in \<open>s\<close> and the cell \<open>c + k\<close> of the delay line as it
  was in \<open>s\<close>.\<close>

definition mixed :: "SharcDelayLine \<Rightarrow> int \<Rightarrow> int \<Rightarrow> proc_state \<Rightarrow> proc_state \<Rightarrow> bool" where
  "mixed e c m s s' \<longleftrightarrow>
     (\<forall>k. 0 \<le> k \<and> k < m \<longrightarrow>
        heap s' (outputLeft s + k)
          = heap s (inputLeft s + k) * dryMix e + bufferLeft s ! nat (c + k) * wetMix e
      \<and> heap s' (outputRight s + k)
          = heap s (inputRight s + k) * dryMix e + bufferRight s ! nat (c + k) * wetMix e)"

text \<open>A vector group at a given offset into the delay lines, and the step of
  the scalar tail loop from one sample to the next (used to compare the two).\<close>

definition group_at :: "nat \<Rightarrow> SharcDelayLine \<Rightarrow> int \<Rightarrow> proc_state \<Rightarrow> error + proc_state" where
  "group_at W e offset s = map_sum id (\<lambda>s'. s'\<lparr>idx := idx s\<rparr>) (simd_group W e 0 (s\<lparr>idx := offset\<rparr>))"

definition next_sample :: "proc_state \<Rightarrow> proc_state" where
  "next_sample s = s\<lparr>inputLeft := inputLeft s + 1, inputRight := inputRight s + 1,
                outputLeft := outputLeft s + 1, outputRight := outputRight s + 1,
                idx := idx s + 1\<rparr>"

subsection \<open>The per-sample recurrence as the specification words it\<close>

text \<open>
  This part follows the specification (sections 4.2 and 4.3), not the source: for
  each input sample, the output is \<open>input * dry + delayed * wet\<close> per channel,
  the value \<open>clamp (input + feedback * delayed, -1, 1)\<close> replaces the cell at the
  cursor, and the cursor advances, going back to 0 when it reaches
  \<open>delaySamples\<close> (\<^verbatim>\<open>if (++idx >= delaySamples) idx = 0\<close>). The state is the pair
  of delay lines with the cursor; a block is a list of stereo samples.
\<close>

definition clamp :: "real \<Rightarrow> real \<Rightarrow> real \<Rightarrow> real" where
  "clamp x lo hi = max lo (min hi x)"

type_synonym line_state = "real list \<times> real list \<times> int"

fun recurrence_output :: "SharcDelayLine \<Rightarrow> real \<times> real \<Rightarrow> line_state \<Rightarrow> real \<times> real" where
  "recurrence_output e (xl, xr) (bl, br, i) =
     (xl * dryMix e + bl ! nat i * wetMix e, xr * dryMix e + br ! nat i * wetMix e)"

fun recurrence_update :: "SharcDelayLine \<Rightarrow> real \<times> real \<Rightarrow> line_state \<Rightarrow> line_state" where
  "recurrence_update e (xl, xr) (bl, br, i) =
     (bl[nat i := clamp (xl + feedback e * bl ! nat i) (- 1) 1],
      br[nat i := clamp (xr + feedback e * br ! nat i) (- 1) 1],
      if i + 1 \<ge> delaySamples e then 0 else i + 1)"

fun recurrence_outputs ::
  "SharcDelayLine \<Rightarrow> (real \<times> real) list \<Rightarrow> line_state \<Rightarrow> (real \<times> real) list" where
  "recurrence_outputs e [] st = []"
| "recurrence_outputs e (x # xs) st =
     recurrence_output e x st # recurrence_outputs e xs (recurrence_update e x st)"

fun recurrence_final :: "SharcDelayLine \<Rightarrow> (real \<times> real) list \<Rightarrow> line_state \<Rightarrow> line_state" where
  "recurrence_final e [] st = st"
| "recurrence_final e (x # xs) st = recurrence_final e xs (recurrence_update e x st)"

text \<open>The \<open>n\<close> samples at a pointer, and the stereo block at two pointers.\<close>

definition samples_at :: "(int \<Rightarrow> real) \<Rightarrow> int \<Rightarrow> nat \<Rightarrow> real list" where
  "samples_at h p n = map (\<lambda>j. h (p + int j)) [0..<n]"

definition stereo_at :: "(int \<Rightarrow> real) \<Rightarrow> int \<Rightarrow> int \<Rightarrow> nat \<Rightarrow> (real \<times> real) list" where
  "stereo_at h pL pR n = zip (samples_at h pL n) (samples_at h pR n)"

definition line_of :: "proc_state \<Rightarrow> line_state" where
  "line_of s = (bufferLeft s, bufferRight s, idx s)"

section \<open>Basic facts\<close>

text \<open>The equations that evaluate a call on concrete data.\<close>

lemmas eval_defs = processBlockScalar_def processBlockSIMD_def enter_def leave_def
  scalar_loop.simps simd_while.simps simd_segment_def samplesToEdge_def jmin_def
  cpp_div_def cpp_mod_def chunk_loop.simps tail_loop.simps simd_group_def buf_load_def
  buf_store_def fromRawArray_def copyToRawArray_def simd_add_def simd_mul_def simd_jmin_def
  simd_jmax_def process_sample_def buf_read_def jlimit_def Let_def

lemma scalar_loop_done: "n \<le> i \<Longrightarrow> scalar_loop e i n s = Inr s"
  by (simp add: scalar_loop.simps)

lemma scalar_loop_step:
  "i < n \<Longrightarrow> scalar_loop e i n s =
     (case process_sample e i s of
        Inl err \<Rightarrow> Inl err
      | Inr s' \<Rightarrow> scalar_loop e (i + 1) n
          (s'\<lparr>idx := (if idx s' + 1 \<ge> delaySamples e then 0 else idx s' + 1)\<rparr>))"
  by (subst scalar_loop.simps) simp

lemma chunk_loop_done: "k \<le> chunk \<Longrightarrow> chunk_loop W e chunk k s = Inr s"
  by (simp add: chunk_loop.simps)

lemma chunk_loop_step:
  "chunk < k \<Longrightarrow> chunk_loop W e chunk k s =
     (case simd_group W e chunk s of
        Inl err \<Rightarrow> Inl err
      | Inr s' \<Rightarrow> chunk_loop W e (chunk + 1) k s')"
  by (subst chunk_loop.simps) simp

lemma tail_loop_done: "t \<le> i \<Longrightarrow> tail_loop e i t s = Inr s"
  by (simp add: tail_loop.simps)

lemma tail_loop_step:
  "i < t \<Longrightarrow> tail_loop e i t s =
     (case process_sample e 0 s of
        Inl err \<Rightarrow> Inl err
      | Inr s' \<Rightarrow>
          tail_loop e (i + 1) t
            (s'\<lparr>inputLeft := inputLeft s' + 1, inputRight := inputRight s' + 1,
                outputLeft := outputLeft s' + 1, outputRight := outputRight s' + 1,
                idx := idx s' + 1\<rparr>))"
  by (subst tail_loop.simps) simp

lemma map2_replicate_left: "map2 f (replicate n c) v = map (f c) (take n v)"
proof (induction n arbitrary: v)
  case 0
  show ?case by simp
next
  case (Suc n)
  show ?case by (cases v) (simp_all add: Suc)
qed

lemma map2_replicate_right: "map2 f v (replicate n c) = map (\<lambda>x. f x c) (take n v)"
proof (induction n arbitrary: v)
  case 0
  show ?case by simp
next
  case (Suc n)
  show ?case by (cases v) (simp_all add: Suc)
qed

section \<open>Lifecycle and parameters\<close>

lemma length_vector_resize [simp]: "length (vector_resize n xs) = n"
  by (simp add: vector_resize_def min_def)

lemma static_cast_int_nonneg:
  "0 \<le> x \<Longrightarrow> x < 2147483648 \<Longrightarrow> static_cast_int x = Inr \<lfloor>x\<rfloor>"
  unfolding static_cast_int_def truncate_toward_zero_def Let_def
  by (auto simp: floor_less_iff le_floor_iff)

lemma engine_48k_fields:
  "prepared engine_48k" "sRate engine_48k = 48000" "maxDelaySamples engine_48k = 240000"
  by (simp_all add: engine_48k_def prepare_def static_cast_int_nonneg reset_def
      SharcDelayLine_default_def)

text \<open>
  Claim C9. \<open>reset\<close> zeroes every element of both delay lines (their lengths are
  kept) and sets the cursor to 0; feedback, wet and dry mix, \<open>delaySamples\<close>,
  \<open>maxDelaySamples\<close>, the sample rate and the prepared flag are unchanged.
\<close>

theorem reset_zeroes_and_keeps_parameters:
  "delayLineLeft (reset e) = replicate (length (delayLineLeft e)) 0
   \<and> delayLineRight (reset e) = replicate (length (delayLineRight e)) 0
   \<and> delayIndex (reset e) = 0
   \<and> feedback (reset e) = feedback e
   \<and> wetMix (reset e) = wetMix e
   \<and> dryMix (reset e) = dryMix e
   \<and> delaySamples (reset e) = delaySamples e
   \<and> maxDelaySamples (reset e) = maxDelaySamples e
   \<and> sRate (reset e) = sRate e
   \<and> prepared (reset e) = prepared e"
  by (simp add: reset_def map_replicate_const)

text \<open>
  Claim C5. On an engine whose \<open>prepared\<close> flag is not set, \<open>processBlockScalar\<close>
  and \<open>processBlockSIMD\<close> return at once: the caller's sample memory (so the output
  arrays too) and the whole engine state are returned unchanged.
\<close>

theorem unprepared_is_noop:
  "\<not> prepared e \<Longrightarrow>
     processBlockScalar e h inL inR outL outR numSamples = Inr (h, e)
     \<and> processBlockSIMD W e h inL inR outL outR numSamples = Some (Inr (h, e))"
  by (simp add: processBlockScalar_def processBlockSIMD_def)

theorem unprepared_is_noop_witness:
  "\<not> prepared SharcDelayLine_default
   \<and> processBlockScalar SharcDelayLine_default (\<lambda>a. 1) 0 4 0 4 4
       = Inr (\<lambda>a. 1, SharcDelayLine_default)
   \<and> processBlockSIMD 4 SharcDelayLine_default (\<lambda>a. 1) 0 4 0 4 4
       = Some (Inr (\<lambda>a. 1, SharcDelayLine_default))"
  using unprepared_is_noop [of SharcDelayLine_default "\<lambda>a. 1" 0 4 0 4 4 4]
  by (simp add: SharcDelayLine_default_def)

text \<open>
  Claim C8. For a sample rate and a maximum delay whose product is not negative
  and fits an \<^verbatim>\<open>int\<close>, \<open>prepare\<close> returns normally, sets \<open>maxDelaySamples\<close> to
  the floor of the product, leaves both delay lines with exactly that many
  elements, all zero, the cursor at 0 and the engine marked prepared.
\<close>

theorem prepare_allocates_and_zeroes:
  assumes "0 \<le> sRate' * maxDelaySeconds" and "sRate' * maxDelaySeconds < 2147483648"
  shows "\<exists>e'. prepare sRate' maxDelaySeconds e = Inr e'
           \<and> maxDelaySamples e' = \<lfloor>sRate' * maxDelaySeconds\<rfloor>
           \<and> delayLineLeft e' = replicate (nat \<lfloor>sRate' * maxDelaySeconds\<rfloor>) 0
           \<and> delayLineRight e' = replicate (nat \<lfloor>sRate' * maxDelaySeconds\<rfloor>) 0
           \<and> delayIndex e' = 0
           \<and> prepared e'
           \<and> sRate e' = sRate'"
proof -
  have m: "0 \<le> \<lfloor>sRate' * maxDelaySeconds\<rfloor>" using assms(1) by simp
  show ?thesis
    using m
    by (simp add: prepare_def static_cast_int_nonneg [OF assms] reset_def map_replicate_const)
qed

theorem prepare_allocates_and_zeroes_witness:
  "(0::real) \<le> 48000 * 5 \<and> (48000::real) * 5 < 2147483648
   \<and> (\<exists>e'. prepare 48000 5 SharcDelayLine_default = Inr e'
           \<and> maxDelaySamples e' = 240000
           \<and> length (delayLineLeft e') = 240000
           \<and> length (delayLineRight e') = 240000
           \<and> delayIndex e' = 0
           \<and> prepared e')"
  using prepare_allocates_and_zeroes [of 48000 5 SharcDelayLine_default]
  by auto

text \<open>
  Claim C4, as stated, fails: the conversion \<^verbatim>\<open>static_cast<int>\<close> drops the
  fraction, it does not round. At 48 kHz a delay of 1/1024 s is 46.875 samples;
  the engine stores 46, rounding gives 47.
\<close>

theorem setDelaySeconds_round_counterexample:
  "prepared engine_48k
   \<and> delaySamples (projr (setDelaySeconds (1 / 1024) engine_48k)) = 46
   \<and> jlimit 1 (maxDelaySamples engine_48k) (round (1 / 1024 * sRate engine_48k)) = 47"
  by (simp add: engine_48k_fields setDelaySeconds_def static_cast_int_nonneg jlimit_def round_def)

text \<open>
  Claim C4, amended. For every \<open>seconds\<close> whose product with the sample rate
  converts to an \<^verbatim>\<open>int\<close>, and every engine with \<open>maxDelaySamples \<ge> 1\<close>,
  \<open>setDelaySeconds\<close> sets \<open>delaySamples\<close> to that product truncated toward zero
  and clamped into \<open>[1, maxDelaySamples]\<close>; no other field changes.
\<close>

theorem setDelaySeconds_truncates:
  assumes "- 2147483649 < seconds * sRate e" and "seconds * sRate e < 2147483648"
    and "1 \<le> maxDelaySamples e"
  shows "\<exists>e'. setDelaySeconds seconds e = Inr e'
           \<and> delaySamples e' =
               max 1 (min (maxDelaySamples e)
                 (if 0 \<le> seconds * sRate e then \<lfloor>seconds * sRate e\<rfloor>
                  else \<lceil>seconds * sRate e\<rceil>))
           \<and> 1 \<le> delaySamples e' \<and> delaySamples e' \<le> maxDelaySamples e
           \<and> e' = e\<lparr>delaySamples := delaySamples e'\<rparr>"
proof -
  let ?x = "seconds * sRate e"
  have lo: "- 2147483648 \<le> truncate_toward_zero ?x"
    using assms(1) unfolding truncate_toward_zero_def
    by (auto simp: le_floor_iff le_ceiling_iff)
  have hi: "truncate_toward_zero ?x \<le> 2147483647"
    using assms(2) unfolding truncate_toward_zero_def
    by (auto simp: floor_le_iff ceiling_le_iff)
  have c: "static_cast_int ?x = Inr (truncate_toward_zero ?x)"
    using lo hi by (simp add: static_cast_int_def)
  show ?thesis
    using assms(3) by (auto simp: setDelaySeconds_def c jlimit_def truncate_toward_zero_def)
qed

theorem setDelaySeconds_truncates_witness:
  "- 2147483649 < 1 / 1024 * sRate engine_48k \<and> 1 / 1024 * sRate engine_48k < 2147483648
   \<and> 1 \<le> maxDelaySamples engine_48k
   \<and> (\<exists>e'. setDelaySeconds (1 / 1024) engine_48k = Inr e' \<and> delaySamples e' = 46)"
  using setDelaySeconds_truncates [of "1 / 1024" engine_48k]
  by (auto simp: engine_48k_fields)

text \<open>The small engine of the examples is what the public interface produces:
  \<open>prepare\<close> at 4 Hz with one second of delay line, then the four setters.\<close>

lemma engine_4_reached:
  "engine_4 =
     setDryMix (1 / 2) (setWetMix (1 / 2) (setFeedback (1 / 2)
       (projr (setDelaySeconds 1 (projr (prepare 4 1 SharcDelayLine_default))))))"
  by (simp add: engine_4_def setDryMix_def setWetMix_def setFeedback_def setDelaySeconds_def
      prepare_def static_cast_int_nonneg reset_def SharcDelayLine_default_def jlimit_def
      vector_resize_def eval_nat_numeral)

section \<open>The scalar path: splitting a block\<close>

lemma scalar_loop_split:
  "i \<le> m \<Longrightarrow> m \<le> n \<Longrightarrow>
     scalar_loop e i n s =
       (case scalar_loop e i m s of Inl err \<Rightarrow> Inl err | Inr s' \<Rightarrow> scalar_loop e m n s')"
proof (induction "nat (m - i)" arbitrary: i s)
  case 0
  then have "i = m" by simp
  then show ?case by (simp add: scalar_loop_done)
next
  case (Suc k)
  then have lt: "i < m" "i < n" by linarith+
  have k: "k = nat (m - (i + 1))" using Suc.hyps(2) by linarith
  show ?case
  proof (cases "process_sample e i s")
    case (Inl err)
    then show ?thesis by (simp add: scalar_loop_step lt)
  next
    case (Inr s')
    show ?thesis
      using Suc.hyps(1) [OF k, of "s'\<lparr>idx := (if idx s' + 1 \<ge> delaySamples e then 0 else idx s' + 1)\<rparr>"]
        lt Suc.prems
      by (simp add: scalar_loop_step Inr)
  qed
qed

lemma process_sample_shift:
  "process_sample e i (shift k s) = map_sum id (shift k) (process_sample e (i + k) s)"
  by (simp add: process_sample_def shift_def Let_def add.assoc add.commute add.left_commute
      split: sum.splits)

lemma scalar_loop_shift:
  "scalar_loop e i n (shift k s) = map_sum id (shift k) (scalar_loop e (i + k) (n + k) s)"
proof (induction "nat (n - i)" arbitrary: i s)
  case 0
  then show ?case by (simp add: scalar_loop_done)
next
  case (Suc j)
  then have lt: "i < n" by linarith
  have j: "j = nat (n - (i + 1))" using Suc.hyps(2) by linarith
  show ?case
  proof (cases "process_sample e (i + k) s")
    case (Inl err)
    then show ?thesis using lt by (simp add: scalar_loop_step process_sample_shift)
  next
    case (Inr s')
    let ?s = "s'\<lparr>idx := (if idx s' + 1 \<ge> delaySamples e then 0 else idx s' + 1)\<rparr>"
    have sh: "(shift k s')\<lparr>idx := (if idx (shift k s') + 1 \<ge> delaySamples e then 0 else idx (shift k s') + 1)\<rparr>
       = shift k ?s"
      by (simp add: shift_def)
    have eq: "i + 1 + k = i + k + 1" by simp
    show ?thesis
      using Suc.hyps(1) [OF j, of ?s, unfolded eq] lt
      by (simp add: scalar_loop_step process_sample_shift Inr sh)
  qed
qed

lemma process_sample_params:
  "feedback e' = feedback e \<Longrightarrow> wetMix e' = wetMix e \<Longrightarrow> dryMix e' = dryMix e \<Longrightarrow>
     process_sample e' i s = process_sample e i s"
  by (simp add: process_sample_def cong: sum.case_cong)

lemma scalar_loop_params:
  assumes "feedback e' = feedback e" "wetMix e' = wetMix e" "dryMix e' = dryMix e"
    "delaySamples e' = delaySamples e"
  shows "scalar_loop e' i n s = scalar_loop e i n s"
proof (induction "nat (n - i)" arbitrary: i s)
  case 0
  then show ?case by (simp add: scalar_loop_done)
next
  case (Suc j)
  then have lt: "i < n" by linarith
  have j: "j = nat (n - (i + 1))" using Suc.hyps(2) by linarith
  show ?case
    using Suc.hyps(1) [OF j] lt assms
    by (simp add: scalar_loop_step process_sample_params [OF assms(1-3)] split: sum.splits)
qed

lemma process_sample_pointers:
  "process_sample e i s = Inr s' \<Longrightarrow>
     inputLeft s' = inputLeft s \<and> inputRight s' = inputRight s
     \<and> outputLeft s' = outputLeft s \<and> outputRight s' = outputRight s \<and> idx s' = idx s"
  by (auto simp: process_sample_def Let_def split: sum.splits)

lemma scalar_loop_pointers:
  "scalar_loop e i n s = Inr s' \<Longrightarrow>
     inputLeft s' = inputLeft s \<and> inputRight s' = inputRight s
     \<and> outputLeft s' = outputLeft s \<and> outputRight s' = outputRight s"
proof (induction "nat (n - i)" arbitrary: i s)
  case 0
  then show ?case by (simp add: scalar_loop_done)
next
  case (Suc j)
  then have lt: "i < n" by linarith
  have j: "j = nat (n - (i + 1))" using Suc.hyps(2) by linarith
  from Suc.prems lt obtain s1 where s1: "process_sample e i s = Inr s1"
    and rest: "scalar_loop e (i + 1) n
       (s1\<lparr>idx := (if idx s1 + 1 \<ge> delaySamples e then 0 else idx s1 + 1)\<rparr>) = Inr s'"
    by (auto simp: scalar_loop_step split: sum.splits)
  show ?case
    using Suc.hyps(1) [OF j rest] process_sample_pointers [OF s1] by simp
qed

lemma processBlockScalar_append:
  assumes "0 \<le> n1" and "0 \<le> n2"
  shows "processBlockScalar e h inL inR outL outR (n1 + n2) =
     (case processBlockScalar e h inL inR outL outR n1 of
        Inl err \<Rightarrow> Inl err
      | Inr (h', e') \<Rightarrow> processBlockScalar e' h' (inL + n1) (inR + n1) (outL + n1) (outR + n1) n2)"
proof (cases "prepared e")
  case False
  then show ?thesis by (simp add: processBlockScalar_def)
next
  case True
  let ?s0 = "enter e h inL inR outL outR"
  have split: "scalar_loop e 0 (n1 + n2) ?s0 =
      (case scalar_loop e 0 n1 ?s0 of Inl err \<Rightarrow> Inl err | Inr s' \<Rightarrow> scalar_loop e n1 (n1 + n2) s')"
    using assms by (intro scalar_loop_split) simp_all
  show ?thesis
  proof (cases "scalar_loop e 0 n1 ?s0")
    case (Inl err)
    then show ?thesis using True split by (simp add: processBlockScalar_def)
  next
    case (Inr s1)
    obtain h' e' where he: "leave e s1 = (h', e')" by (cases "leave e s1")
    then have h': "h' = heap s1"
      and e': "e' = e\<lparr>delayLineLeft := bufferLeft s1, delayLineRight := bufferRight s1,
                       delayIndex := idx s1\<rparr>"
      by (simp_all add: leave_def)
    have ptr: "inputLeft s1 = inL" "inputRight s1 = inR" "outputLeft s1 = outL" "outputRight s1 = outR"
      using scalar_loop_pointers [OF Inr] by (simp_all add: enter_def)
    have ent: "enter e' h' (inL + n1) (inR + n1) (outL + n1) (outR + n1) = shift n1 s1"
      by (simp add: enter_def shift_def h' e' ptr)
    have par: "scalar_loop e' 0 n2 (shift n1 s1) = scalar_loop e 0 n2 (shift n1 s1)"
      by (rule scalar_loop_params) (simp_all add: e')
    have sh: "scalar_loop e 0 n2 (shift n1 s1) = map_sum id (shift n1) (scalar_loop e n1 (n1 + n2) s1)"
      using scalar_loop_shift [of e 0 n2 n1 s1] by (simp add: add.commute)
    have lv: "\<And>s. leave e' (shift n1 s) = leave e s"
      by (simp add: leave_def shift_def e')
    have "prepared e'" using True by (simp add: e')
    then show ?thesis
      using True split Inr he
      by (simp add: processBlockScalar_def ent par sh lv split: sum.splits)
  qed
qed

lemma processBlockScalar_zero: "processBlockScalar e h inL inR outL outR 0 = Inr (h, e)"
  by (simp add: processBlockScalar_def scalar_loop_done leave_def enter_def)

text \<open>
  Claim C6. For every engine and every list of non-negative chunk lengths,
  processing the chunks in consecutive \<open>processBlockScalar\<close> calls gives the same
  sample memory (so the same outputs) and the same engine (delay lines, cursor)
  as one call on the whole block, whatever the block length is relative to
  \<open>delaySamples\<close>, and also when a call fails.
\<close>

theorem scalar_chunking:
  "\<forall>n \<in> set ns. 0 \<le> n \<Longrightarrow>
     scalar_chunks e h inL inR outL outR ns
       = processBlockScalar e h inL inR outL outR (sum_list ns)"
proof (induction ns arbitrary: e h inL inR outL outR)
  case Nil
  show ?case by (simp add: processBlockScalar_zero)
next
  case (Cons n ns)
  have n: "0 \<le> n" and ns: "\<forall>m \<in> set ns. 0 \<le> m" using Cons.prems by simp_all
  have sum: "0 \<le> sum_list ns" using ns by (simp add: sum_list_nonneg)
  show ?case
    by (simp add: processBlockScalar_append [OF n sum] Cons.IH [OF ns] split: sum.splits)
qed

theorem scalar_chunking_witness:
  "(0::int) \<le> 3 \<and> (0::int) \<le> 2 \<and> (0::int) \<le> 4
   \<and> scalar_chunks (engine_4\<lparr>delaySamples := 2\<rparr>) impulse 0 10 20 30 [3, 2, 4]
       = processBlockScalar (engine_4\<lparr>delaySamples := 2\<rparr>) impulse 0 10 20 30 9
   \<and> delayIndex (snd (projr
         (processBlockScalar (engine_4\<lparr>delaySamples := 2\<rparr>) impulse 0 10 20 30 9))) = 1"
proof -
  have "delayIndex (snd (projr
         (processBlockScalar (engine_4\<lparr>delaySamples := 2\<rparr>) impulse 0 10 20 30 9))) = 1"
    by (simp add: engine_4_def impulse_def eval_defs)
  then show ?thesis
    using scalar_chunking [of "[3, 2, 4]" "engine_4\<lparr>delaySamples := 2\<rparr>" impulse 0 10 20 30]
    by simp
qed

section \<open>The hard clip keeps the delay lines in range\<close>

lemma clipped_update: "clipped b \<Longrightarrow> - 1 \<le> v \<Longrightarrow> v \<le> 1 \<Longrightarrow> clipped (b[i := v])"
  unfolding clipped_def list_all_iff using set_update_subset_insert [of b i v] by auto

lemma jlimit_unit: "- 1 \<le> jlimit (- 1) 1 (x::real) \<and> jlimit (- 1) 1 x \<le> 1"
  by (simp add: jlimit_def)

lemma process_sample_clipped:
  "process_sample e i s = Inr s' \<Longrightarrow> clipped (bufferLeft s) \<Longrightarrow> clipped (bufferRight s) \<Longrightarrow>
     clipped (bufferLeft s') \<and> clipped (bufferRight s')"
  by (auto simp: process_sample_def Let_def jlimit_unit intro!: clipped_update split: sum.splits)

lemma scalar_loop_clipped:
  "scalar_loop e i n s = Inr s' \<Longrightarrow> clipped (bufferLeft s) \<Longrightarrow> clipped (bufferRight s) \<Longrightarrow>
     clipped (bufferLeft s') \<and> clipped (bufferRight s')"
proof (induction "nat (n - i)" arbitrary: i s)
  case 0
  then show ?case by (simp add: scalar_loop_done)
next
  case (Suc j)
  then have lt: "i < n" by linarith
  have j: "j = nat (n - (i + 1))" using Suc.hyps(2) by linarith
  from Suc.prems(1) lt obtain s1 where s1: "process_sample e i s = Inr s1"
    and rest: "scalar_loop e (i + 1) n
       (s1\<lparr>idx := (if idx s1 + 1 \<ge> delaySamples e then 0 else idx s1 + 1)\<rparr>) = Inr s'"
    by (auto simp: scalar_loop_step split: sum.splits)
  show ?case
    using Suc.hyps(1) [OF j rest] process_sample_clipped [OF s1 Suc.prems(2,3)] by simp
qed

lemma clip_lanes_clipped:
  "clipped (simd_jmax (replicate W (- 1)) (simd_jmin (replicate W 1) v))"
  unfolding clipped_def list_all_iff simd_jmax_def simd_jmin_def map2_replicate_left
  by (auto dest!: in_set_takeD)

lemma clipped_store:
  "clipped b \<Longrightarrow> clipped v \<Longrightarrow> clipped (buf_store v offset b)"
  unfolding clipped_def list_all_iff buf_store_def
  by (auto dest: in_set_takeD in_set_dropD)

lemma simd_group_clipped:
  "simd_group W e chunk s = Inr s' \<Longrightarrow> clipped (bufferLeft s) \<Longrightarrow> clipped (bufferRight s) \<Longrightarrow>
     clipped (bufferLeft s') \<and> clipped (bufferRight s')"
  by (auto simp: simd_group_def Let_def clip_lanes_clipped intro!: clipped_store split: sum.splits)

lemma chunk_loop_clipped:
  "chunk_loop W e chunk k s = Inr s' \<Longrightarrow> clipped (bufferLeft s) \<Longrightarrow> clipped (bufferRight s) \<Longrightarrow>
     clipped (bufferLeft s') \<and> clipped (bufferRight s')"
proof (induction "nat (k - chunk)" arbitrary: chunk s)
  case 0
  then show ?case by (simp add: chunk_loop_done)
next
  case (Suc j)
  then have lt: "chunk < k" by linarith
  have j: "j = nat (k - (chunk + 1))" using Suc.hyps(2) by linarith
  from Suc.prems(1) lt obtain s1 where s1: "simd_group W e chunk s = Inr s1"
    and rest: "chunk_loop W e (chunk + 1) k s1 = Inr s'"
    by (auto simp: chunk_loop_step split: sum.splits)
  show ?case
    using Suc.hyps(1) [OF j rest] simd_group_clipped [OF s1 Suc.prems(2,3)] by simp
qed

lemma tail_loop_clipped:
  "tail_loop e i t s = Inr s' \<Longrightarrow> clipped (bufferLeft s) \<Longrightarrow> clipped (bufferRight s) \<Longrightarrow>
     clipped (bufferLeft s') \<and> clipped (bufferRight s')"
proof (induction "nat (t - i)" arbitrary: i s)
  case 0
  then show ?case by (simp add: tail_loop_done)
next
  case (Suc j)
  then have lt: "i < t" by linarith
  have j: "j = nat (t - (i + 1))" using Suc.hyps(2) by linarith
  from Suc.prems(1) lt obtain s1 where s1: "process_sample e 0 s = Inr s1"
    and rest: "tail_loop e (i + 1) t
            (s1\<lparr>inputLeft := inputLeft s1 + 1, inputRight := inputRight s1 + 1,
                outputLeft := outputLeft s1 + 1, outputRight := outputRight s1 + 1,
                idx := idx s1 + 1\<rparr>) = Inr s'"
    by (auto simp: tail_loop_step split: sum.splits)
  show ?case
    using Suc.hyps(1) [OF j rest] process_sample_clipped [OF s1 Suc.prems(2,3)] by simp
qed

lemma simd_segment_clipped:
  assumes "simd_segment W e r s = Inr (r', s')" "clipped (bufferLeft s)" "clipped (bufferRight s)"
  shows "clipped (bufferLeft s') \<and> clipped (bufferRight s')"
proof -
  let ?k = "cpp_div (samplesToEdge e r s) (int W)"
  from assms(1) obtain s1 s2 where s1: "chunk_loop W e 0 ?k s = Inr s1"
    and s2: "tail_loop e 0 (cpp_mod (samplesToEdge e r s) (int W))
               (s1\<lparr>idx := idx s1 + ?k * int W\<rparr>) = Inr s2"
    and s': "s' = s2\<lparr>idx := (if idx s2 \<ge> delaySamples e then 0 else idx s2)\<rparr>"
    by (auto simp: simd_segment_def Let_def split: sum.splits)
  have "clipped (bufferLeft s1) \<and> clipped (bufferRight s1)"
    using chunk_loop_clipped [OF s1 assms(2,3)] .
  then have "clipped (bufferLeft s2) \<and> clipped (bufferRight s2)"
    using tail_loop_clipped [OF s2] by simp
  then show ?thesis by (simp add: s')
qed

lemma simd_while_clipped_aux:
  "simd_while W e r s = Some y \<Longrightarrow>
     (\<forall>s'. y = Inr s' \<longrightarrow> clipped (bufferLeft s) \<longrightarrow> clipped (bufferRight s) \<longrightarrow>
        clipped (bufferLeft s') \<and> clipped (bufferRight s'))"
proof (induction rule: simd_while.raw_induct [rotated 1, consumes 1])
  case (1 simd_while' W e r s y)
  show ?case
  proof (intro allI impI)
    fix s'
    assume y: "y = Inr s'" and cl: "clipped (bufferLeft s)" "clipped (bufferRight s)"
    show "clipped (bufferLeft s') \<and> clipped (bufferRight s')"
    proof (cases "0 < r")
      case False
      then show ?thesis using 1(2) y cl by simp
    next
      case True
      with 1(2) y obtain r1 s1 where seg: "simd_segment W e r s = Inr (r1, s1)"
        and rest: "simd_while' W e r1 s1 = Some y"
        by (auto split: sum.splits)
      show ?thesis
        using 1(1) [OF rest] y simd_segment_clipped [OF seg cl] by simp
    qed
  qed
qed

lemma simd_while_clipped:
  "simd_while W e r s = Some (Inr s') \<Longrightarrow> clipped (bufferLeft s) \<Longrightarrow> clipped (bufferRight s) \<Longrightarrow>
     clipped (bufferLeft s') \<and> clipped (bufferRight s')"
  using simd_while_clipped_aux by blast

lemma do_call_clipped:
  "do_call W c e = Some e' \<Longrightarrow> buffers_clipped e \<Longrightarrow> buffers_clipped e'"
proof (cases c)
  case (ProcessBlockScalar h inL inR outL outR n)
  assume a: "do_call W c e = Some e'" "buffers_clipped e"
  show ?thesis
  proof (cases "prepared e")
    case False
    then show ?thesis using a ProcessBlockScalar by (auto simp: processBlockScalar_def)
  next
    case True
    with a ProcessBlockScalar obtain s where
      s: "scalar_loop e 0 n (enter e h inL inR outL outR) = Inr s" and e': "e' = snd (leave e s)"
      by (auto simp: processBlockScalar_def split: sum.splits)
    show ?thesis
      using scalar_loop_clipped [OF s] a(2)
      by (simp add: e' leave_def enter_def buffers_clipped_def)
  qed
next
  case (ProcessBlockSIMD h inL inR outL outR n)
  assume a: "do_call W c e = Some e'" "buffers_clipped e"
  show ?thesis
  proof (cases "prepared e")
    case False
    then show ?thesis using a ProcessBlockSIMD by (auto simp: processBlockSIMD_def)
  next
    case True
    with a ProcessBlockSIMD obtain s where
      s: "simd_while W e n (enter e h inL inR outL outR) = Some (Inr s)" and e': "e' = snd (leave e s)"
      by (auto simp: processBlockSIMD_def split: sum.splits option.splits)
    show ?thesis
      using simd_while_clipped [OF s] a(2)
      by (simp add: e' leave_def enter_def buffers_clipped_def)
  qed
qed (auto simp: buffers_clipped_def setDelaySeconds_def setFeedback_def setWetMix_def
      setDryMix_def reset_def clipped_def list_all_iff split: sum.splits)

lemma run_calls_clipped:
  "run_calls W cs e = Some e' \<Longrightarrow> buffers_clipped e \<Longrightarrow> buffers_clipped e'"
proof (induction cs arbitrary: e)
  case Nil
  then show ?case by simp
next
  case (Cons c cs)
  from Cons.prems(1) obtain e1 where e1: "do_call W c e = Some e1"
    and rest: "run_calls W cs e1 = Some e'"
    by (auto split: option.splits)
  show ?case using Cons.IH [OF rest do_call_clipped [OF e1 Cons.prems(2)]] .
qed

text \<open>
  Claim C3. Starting from a reset engine, after any sequence of parameter changes
  and of blocks processed by either path (any input, so also inputs bounded in
  \<open>[-1, 1]\<close>; \<open>setFeedback\<close> keeps the feedback in \<open>[0, 0.99]\<close>), every element
  of both delay lines is in \<open>[-1, 1]\<close>. A block may be a single sample, so the
  property holds after every sample written by the scalar path.
\<close>

theorem buffers_stay_clipped:
  "run_calls W cs (reset e0) = Some e \<Longrightarrow>
     (\<forall>x \<in> set (delayLineLeft e). - 1 \<le> x \<and> x \<le> 1)
     \<and> (\<forall>x \<in> set (delayLineRight e). - 1 \<le> x \<and> x \<le> 1)"
proof -
  assume r: "run_calls W cs (reset e0) = Some e"
  have "buffers_clipped (reset e0)"
    by (simp add: buffers_clipped_def reset_def clipped_def list_all_iff)
  from run_calls_clipped [OF r this] show ?thesis
    by (simp add: buffers_clipped_def clipped_def list_all_iff)
qed

theorem buffers_stay_clipped_witness:
  "run_calls 4
     [SetFeedback 2, ProcessBlockScalar (\<lambda>a. 1) 0 10 20 30 3,
      ProcessBlockSIMD (\<lambda>a. 1) 0 10 20 30 6]
     (reset engine_4)
     = Some (engine_4\<lparr>delayLineLeft := [1, 1, 1, 1], delayLineRight := [1, 1, 1, 1],
                      delayIndex := 1, feedback := 99 / 100\<rparr>)
   \<and> list_all (\<lambda>x. - 1 \<le> x \<and> x \<le> 1) [1, 1, 1, 1::real]"
proof -
  have run: "run_calls 4
     [SetFeedback 2, ProcessBlockScalar (\<lambda>a. 1) 0 10 20 30 3,
      ProcessBlockSIMD (\<lambda>a. 1) 0 10 20 30 6]
     (reset engine_4)
     = Some (engine_4\<lparr>delayLineLeft := [1, 1, 1, 1], delayLineRight := [1, 1, 1, 1],
                      delayIndex := 1, feedback := 99 / 100\<rparr>)"
    by (simp add: engine_4_def reset_def setFeedback_def eval_defs eval_nat_numeral)
  from buffers_stay_clipped [OF run] show ?thesis
    using run by simp
qed

section \<open>The SIMD path under its entry precondition\<close>

text \<open>
  With the cursor inside the loop on entry, every pass of the \<^verbatim>\<open>while\<close> loop
  handles a positive number of samples that ends at or before the edge, so the
  loop ends and stays inside the first \<open>delaySamples\<close> cells. This holds for any
  placement of the input and output arrays.
\<close>

lemma cpp_div_nonneg: "0 \<le> a \<Longrightarrow> 0 < b \<Longrightarrow> cpp_div a b = a div b"
  by (cases "a = 0") (simp_all add: cpp_div_def)

lemma cpp_mod_nonneg: "0 \<le> a \<Longrightarrow> 0 < b \<Longrightarrow> cpp_mod a b = a mod b"
  by (simp add: cpp_mod_def cpp_div_nonneg minus_mult_div_eq_mod)

lemma advanced_refl: "advanced L 0 s s"
  by (simp add: advanced_def)

lemma advanced_trans:
  "advanced L m s s1 \<Longrightarrow> advanced L m' s1 s2 \<Longrightarrow> 0 \<le> m \<Longrightarrow> 0 \<le> m' \<Longrightarrow>
     advanced L (m + m') s s2"
  unfolding advanced_def by (auto simp: add.assoc)

lemma advanced_idx [simp]:
  "advanced L m (s\<lparr>idx := x\<rparr>) s' = advanced L m s s'"
  "advanced L m s (s'\<lparr>idx := x\<rparr>) = advanced L m s s'"
  by (simp_all add: advanced_def)

lemma process_sample_advanced:
  assumes "0 \<le> idx s" "idx s < L" "L \<le> int (length (bufferLeft s))"
    "L \<le> int (length (bufferRight s))"
  shows "\<exists>s1. process_sample e 0 s = Inr s1 \<and> idx s1 = idx s
     \<and> advanced L 1 s
          (s1\<lparr>inputLeft := inputLeft s1 + 1, inputRight := inputRight s1 + 1,
              outputLeft := outputLeft s1 + 1, outputRight := outputRight s1 + 1\<rparr>)"
  using assms
  by (auto simp: process_sample_def buf_read_def Let_def advanced_def nth_list_update)

lemma copyToRawArray_outside:
  "\<not> (p \<le> a \<and> a < p + int (length v)) \<Longrightarrow> copyToRawArray v p h a = h a"
  by (auto simp: copyToRawArray_def)

lemma length_lanes [simp]:
  "length (simd_add a b) = min (length a) (length b)"
  "length (simd_mul a b) = min (length a) (length b)"
  "length (simd_jmin a b) = min (length a) (length b)"
  "length (simd_jmax a b) = min (length a) (length b)"
  "length (fromRawArray W h p) = W"
  by (simp_all add: simd_add_def simd_mul_def simd_jmin_def simd_jmax_def fromRawArray_def)

lemma buf_store_length:
  "0 \<le> offset \<Longrightarrow> offset + int (length v) \<le> int (length b) \<Longrightarrow>
     length (buf_store v offset b) = length b"
  by (auto simp: buf_store_def)

lemma buf_store_drop:
  "0 \<le> offset \<Longrightarrow> offset + int (length v) \<le> int (length b) \<Longrightarrow>
     offset + int (length v) \<le> L \<Longrightarrow> drop (nat L) (buf_store v offset b) = drop (nat L) b"
  by (auto simp: buf_store_def min_def nat_add_distrib intro!: arg_cong2 [where f = drop])

lemma buf_load_ok:
  "0 \<le> offset \<Longrightarrow> offset + int W \<le> int (length b) \<Longrightarrow>
     buf_load W b offset = Inr (take W (drop (nat offset) b))"
  by (simp add: buf_load_def)

lemma length_buf_load:
  "0 \<le> offset \<Longrightarrow> offset + int W \<le> int (length b) \<Longrightarrow>
     length (take W (drop (nat offset) b)) = W"
  by auto

lemma simd_group_advanced:
  assumes "0 \<le> idx s + chunk * int W" "idx s + chunk * int W + int W \<le> L"
    "L \<le> int (length (bufferLeft s))" "L \<le> int (length (bufferRight s))"
  shows "\<exists>s1. simd_group W e chunk s = Inr s1 \<and> idx s1 = idx s \<and> advanced L (int W) s s1"
proof -
  let ?o = "idx s + chunk * int W"
  let ?dl = "take W (drop (nat ?o) (bufferLeft s))"
  let ?dr = "take W (drop (nat ?o) (bufferRight s))"
  have inL: "?o + int W \<le> int (length (bufferLeft s))"
    and inR: "?o + int W \<le> int (length (bufferRight s))"
    using assms by linarith+
  have lenL: "length ?dl = W" and lenR: "length ?dr = W"
    using length_buf_load [OF assms(1) inL] length_buf_load [OF assms(1) inR] by simp_all
  have len_mix: "\<And>x c d. length x = W \<Longrightarrow>
      length (simd_add (simd_mul x (replicate W c)) (simd_mul ?dl (replicate W d))) = W"
    "\<And>x c d. length x = W \<Longrightarrow>
      length (simd_add (simd_mul x (replicate W c)) (simd_mul ?dr (replicate W d))) = W"
    using lenL lenR by simp_all
  have len_new: "\<And>x c. length x = W \<Longrightarrow>
      length (simd_jmax (replicate W (- 1)) (simd_jmin (replicate W 1)
        (simd_add x (simd_mul ?dl (replicate W c))))) = W"
    "\<And>x c. length x = W \<Longrightarrow>
      length (simd_jmax (replicate W (- 1)) (simd_jmin (replicate W 1)
        (simd_add x (simd_mul ?dr (replicate W c))))) = W"
    using lenL lenR by simp_all
  have ld: "buf_load W (bufferLeft s) ?o = Inr ?dl" "buf_load W (bufferRight s) ?o = Inr ?dr"
    using buf_load_ok [OF assms(1) inL] buf_load_ok [OF assms(1) inR] by simp_all
  show ?thesis
    using assms(1) inL inR assms(2)
    by (simp add: simd_group_def Let_def ld advanced_def len_mix len_new
        buf_store_length buf_store_drop copyToRawArray_outside)
qed

lemma chunk_loop_advanced:
  assumes "0 \<le> chunk" "chunk \<le> k" "0 \<le> idx s" "idx s + k * int W \<le> L"
    "L \<le> int (length (bufferLeft s))" "L \<le> int (length (bufferRight s))"
  shows "\<exists>s'. chunk_loop W e chunk k s = Inr s' \<and> idx s' = idx s
           \<and> advanced L ((k - chunk) * int W) s s'"
  using assms
proof (induction "nat (k - chunk)" arbitrary: chunk s)
  case 0
  then have "chunk = k" by simp
  then show ?case by (simp add: chunk_loop_done advanced_refl)
next
  case (Suc j)
  then have lt: "chunk < k" by linarith
  have j: "j = nat (k - (chunk + 1))" using Suc.hyps(2) by linarith
  have "chunk * int W + int W \<le> k * int W"
    using lt by (metis add.commute distrib_right mult.left_neutral mult_right_mono
        of_nat_0_le_iff zless_imp_add1_zle)
  moreover have "0 \<le> chunk * int W" using Suc.prems(1) by simp
  ultimately have o: "0 \<le> idx s + chunk * int W" "idx s + chunk * int W + int W \<le> L"
    using Suc.prems by linarith+
  from simd_group_advanced [OF o Suc.prems(5,6)] obtain s1 where
    s1: "simd_group W e chunk s = Inr s1" "idx s1 = idx s" "advanced L (int W) s s1"
    by blast
  have len: "L \<le> int (length (bufferLeft s1))" "L \<le> int (length (bufferRight s1))"
    using s1(3) Suc.prems(5,6) by (simp_all add: advanced_def)
  from Suc.hyps(1) [OF j, of s1] lt Suc.prems s1(2) len obtain s' where
    s': "chunk_loop W e (chunk + 1) k s1 = Inr s'" "idx s' = idx s1"
      "advanced L ((k - (chunk + 1)) * int W) s1 s'"
    by auto
  have "advanced L (int W + (k - (chunk + 1)) * int W) s s'"
    using advanced_trans [OF s1(3) s'(3)] lt by simp
  moreover have "int W + (k - (chunk + 1)) * int W = (k - chunk) * int W"
    by (simp add: algebra_simps)
  ultimately show ?case
    using s1 s' lt by (simp add: chunk_loop_step)
qed

lemma tail_loop_advanced:
  assumes "0 \<le> i" "i \<le> t" "0 \<le> idx s" "idx s + (t - i) \<le> L"
    "L \<le> int (length (bufferLeft s))" "L \<le> int (length (bufferRight s))"
  shows "\<exists>s'. tail_loop e i t s = Inr s' \<and> idx s' = idx s + (t - i)
           \<and> advanced L (t - i) s s'"
  using assms
proof (induction "nat (t - i)" arbitrary: i s)
  case 0
  then have "i = t" by simp
  then show ?case by (simp add: tail_loop_done advanced_refl)
next
  case (Suc j)
  then have lt: "i < t" by linarith
  have j: "j = nat (t - (i + 1))" using Suc.hyps(2) by linarith
  have "idx s < L" using Suc.prems lt by linarith
  from process_sample_advanced [OF Suc.prems(3) this Suc.prems(5,6)] obtain s1 where
    s1: "process_sample e 0 s = Inr s1" "idx s1 = idx s"
      "advanced L 1 s (s1\<lparr>inputLeft := inputLeft s1 + 1, inputRight := inputRight s1 + 1,
              outputLeft := outputLeft s1 + 1, outputRight := outputRight s1 + 1\<rparr>)"
    by blast
  let ?s = "s1\<lparr>inputLeft := inputLeft s1 + 1, inputRight := inputRight s1 + 1,
                outputLeft := outputLeft s1 + 1, outputRight := outputRight s1 + 1,
                idx := idx s1 + 1\<rparr>"
  have adv1: "advanced L 1 s ?s" using s1(3) by (simp add: advanced_def)
  have len: "L \<le> int (length (bufferLeft ?s))" "L \<le> int (length (bufferRight ?s))"
    using adv1 Suc.prems(5,6) by (simp_all add: advanced_def)
  have pre: "0 \<le> i + 1" "i + 1 \<le> t" "0 \<le> idx ?s" "idx ?s + (t - (i + 1)) \<le> L"
    using Suc.prems lt s1(2) by simp_all
  from Suc.hyps(1) [OF j pre len] obtain s' where
    s': "tail_loop e (i + 1) t ?s = Inr s'" "idx s' = idx ?s + (t - (i + 1))"
      "advanced L (t - (i + 1)) ?s s'"
    by blast
  have "advanced L (1 + (t - (i + 1))) s s'"
    using advanced_trans [OF adv1 s'(3)] lt by simp
  then show ?case
    using s1 s' lt by (simp add: tail_loop_step)
qed

lemma simd_segment_advanced:
  assumes W: "0 < W" and r: "0 < r" and i0: "0 \<le> idx s" and i1: "idx s < delaySamples e"
    and lenL: "delaySamples e \<le> int (length (bufferLeft s))"
    and lenR: "delaySamples e \<le> int (length (bufferRight s))"
  shows "\<exists>s'. simd_segment W e r s = Inr (r - samplesToEdge e r s, s')
           \<and> 0 \<le> idx s' \<and> idx s' < delaySamples e
           \<and> advanced (delaySamples e) (samplesToEdge e r s) s s'"
    and "0 < samplesToEdge e r s" and "samplesToEdge e r s \<le> r"
    and "idx s + samplesToEdge e r s \<le> delaySamples e"
proof -
  let ?L = "delaySamples e"
  let ?m = "samplesToEdge e r s"
  let ?k = "cpp_div ?m (int W)"
  let ?t = "cpp_mod ?m (int W)"
  show m: "0 < ?m" "?m \<le> r" "idx s + ?m \<le> ?L"
    using r i1 by (simp_all add: samplesToEdge_def jmin_def)
  have k: "?k = ?m div int W" and t: "?t = ?m mod int W"
    using m(1) W by (simp_all add: cpp_div_nonneg cpp_mod_nonneg)
  have k0: "0 \<le> ?k" using k m(1) W by (simp add: pos_imp_zdiv_nonneg_iff)
  have t0: "0 \<le> ?t" using t W by simp
  have split: "?k * int W + ?t = ?m" using k t by simp
  have kW: "idx s + ?k * int W \<le> ?L" using split t0 m(3) by linarith
  from chunk_loop_advanced [OF _ k0 i0 kW lenL lenR, where e = e] obtain s1 where
    s1: "chunk_loop W e 0 ?k s = Inr s1" "idx s1 = idx s" "advanced ?L (?k * int W) s s1"
    by auto
  let ?s1 = "s1\<lparr>idx := idx s1 + ?k * int W\<rparr>"
  have len1: "?L \<le> int (length (bufferLeft ?s1))" "?L \<le> int (length (bufferRight ?s1))"
    using s1(3) lenL lenR by (simp_all add: advanced_def)
  have pre: "0 \<le> idx ?s1" "idx ?s1 + (?t - 0) \<le> ?L"
    using s1(2) i0 k0 split m(3) by simp_all
  from tail_loop_advanced [OF _ t0 pre len1, where e = e] obtain s2 where
    s2: "tail_loop e 0 ?t ?s1 = Inr s2" "idx s2 = idx ?s1 + ?t" "advanced ?L ?t ?s1 s2"
    by auto
  have idx2: "idx s2 = idx s + ?m" using s2(2) s1(2) split by simp
  have adv: "advanced ?L ?m s s2"
    using advanced_trans [OF s1(3) _ _ t0, of s2] s2(3) k0 split by simp
  let ?s' = "s2\<lparr>idx := (if idx s2 \<ge> ?L then 0 else idx s2)\<rparr>"
  have "simd_segment W e r s = Inr (r - ?m, ?s')"
    by (simp add: simd_segment_def Let_def s1(1) s2(1))
  moreover have "0 \<le> idx ?s'" "idx ?s' < ?L"
    using idx2 i0 i1 m by auto
  moreover have "advanced ?L ?m s ?s'" using adv by simp
  ultimately show "\<exists>s'. simd_segment W e r s = Inr (r - ?m, s')
           \<and> 0 \<le> idx s' \<and> idx s' < ?L \<and> advanced ?L ?m s s'"
    by blast
qed

lemma simd_while_advanced:
  assumes W: "0 < W"
  shows "0 \<le> idx s \<Longrightarrow> idx s < delaySamples e \<Longrightarrow>
     delaySamples e \<le> int (length (bufferLeft s)) \<Longrightarrow>
     delaySamples e \<le> int (length (bufferRight s)) \<Longrightarrow>
     \<exists>s'. simd_while W e r s = Some (Inr s') \<and> 0 \<le> idx s' \<and> idx s' < delaySamples e
          \<and> advanced (delaySamples e) (max 0 r) s s'"
proof (induction "nat r" arbitrary: r s rule: less_induct)
  case less
  show ?case
  proof (cases "0 < r")
    case False
    then show ?thesis
      using less.prems by (subst simd_while.simps) (simp add: advanced_refl max_def)
  next
    case True
    let ?m = "samplesToEdge e r s"
    from simd_segment_advanced [OF W True less.prems] obtain s1 where
      s1: "simd_segment W e r s = Inr (r - ?m, s1)" "0 \<le> idx s1" "idx s1 < delaySamples e"
        "advanced (delaySamples e) ?m s s1"
      and m: "0 < ?m" "?m \<le> r"
      by blast
    have len1: "delaySamples e \<le> int (length (bufferLeft s1))"
      "delaySamples e \<le> int (length (bufferRight s1))"
      using s1(4) less.prems(3,4) by (simp_all add: advanced_def)
    have "nat (r - ?m) < nat r" using m True by linarith
    from less.hyps [OF this s1(2,3) len1] obtain s' where
      s': "simd_while W e (r - ?m) s1 = Some (Inr s')" "0 \<le> idx s'" "idx s' < delaySamples e"
        "advanced (delaySamples e) (max 0 (r - ?m)) s1 s'"
      by blast
    have "advanced (delaySamples e) (?m + max 0 (r - ?m)) s s'"
      using advanced_trans [OF s1(4) s'(4)] m by simp
    moreover have "?m + max 0 (r - ?m) = max 0 r" using m True by simp
    ultimately show ?thesis
      using s' True s1(1) by (subst simd_while.simps) simp
  qed
qed

lemma while_heads_positive:
  assumes W: "0 < W"
  shows "0 \<le> idx s \<Longrightarrow> idx s < delaySamples e \<Longrightarrow>
     delaySamples e \<le> int (length (bufferLeft s)) \<Longrightarrow>
     delaySamples e \<le> int (length (bufferRight s)) \<Longrightarrow>
     list_all (\<lambda>(r', s'). 0 < samplesToEdge e r' s' \<and> samplesToEdge e r' s' \<le> r'
                  \<and> 0 \<le> idx s' \<and> idx s' + samplesToEdge e r' s' \<le> delaySamples e)
       (while_heads fuel W e r s)"
proof (induction fuel arbitrary: r s)
  case 0
  show ?case by simp
next
  case (Suc fuel)
  show ?case
  proof (cases "0 < r")
    case False
    then show ?thesis by simp
  next
    case True
    let ?m = "samplesToEdge e r s"
    from simd_segment_advanced [OF W True Suc.prems] obtain s1 where
      s1: "simd_segment W e r s = Inr (r - ?m, s1)" "0 \<le> idx s1" "idx s1 < delaySamples e"
        "advanced (delaySamples e) ?m s s1"
      and m: "0 < ?m" "?m \<le> r" "idx s + ?m \<le> delaySamples e"
      by blast
    have len1: "delaySamples e \<le> int (length (bufferLeft s1))"
      "delaySamples e \<le> int (length (bufferRight s1))"
      using s1(4) Suc.prems(3,4) by (simp_all add: advanced_def)
    show ?thesis
      using True s1(1) m Suc.prems(1) Suc.IH [OF s1(2,3) len1, of "r - ?m"] by simp
  qed
qed

subsection \<open>Cells past the loop length are neither read nor written\<close>

lemma process_sample_tails:
  assumes "process_sample e i t = Inr t'"
  shows "process_sample e i (with_tails ta tb t) = Inr (with_tails ta tb t')"
proof -
  from assms have b: "0 \<le> idx t" "idx t < int (length (bufferLeft t))"
    "idx t < int (length (bufferRight t))"
    by (auto simp: process_sample_def buf_read_def split: if_splits sum.splits)
  then have n: "nat (idx t) < length (bufferLeft t)" "nat (idx t) < length (bufferRight t)"
    by linarith+
  show ?thesis
    using assms b n
    by (auto simp: process_sample_def buf_read_def with_tails_def Let_def nth_append
        list_update_append1)
qed

lemma buf_load_append:
  "buf_load W b offset = Inr v \<Longrightarrow> buf_load W (b @ ta) offset = Inr v"
  by (auto simp: buf_load_def split: if_splits)

lemma buf_store_append:
  "0 \<le> offset \<Longrightarrow> offset + int (length v) \<le> int (length b) \<Longrightarrow>
     buf_store v offset (b @ ta) = buf_store v offset b @ ta"
  by (auto simp: buf_store_def)

lemma simd_group_tails:
  assumes "simd_group W e chunk t = Inr t'"
  shows "simd_group W e chunk (with_tails ta tb t) = Inr (with_tails ta tb t')"
proof -
  let ?o = "idx t + chunk * int W"
  let ?dl = "take W (drop (nat ?o) (bufferLeft t))"
  let ?dr = "take W (drop (nat ?o) (bufferRight t))"
  from assms have ld: "buf_load W (bufferLeft t) ?o = Inr ?dl"
    "buf_load W (bufferRight t) ?o = Inr ?dr"
    and b: "0 \<le> ?o" "?o + int W \<le> int (length (bufferLeft t))"
      "?o + int W \<le> int (length (bufferRight t))"
    by (auto simp: simd_group_def Let_def buf_load_def split: if_splits sum.splits)
  have lenL: "length ?dl = W" and lenR: "length ?dr = W"
    using length_buf_load [OF b(1,2)] length_buf_load [OF b(1,3)] by simp_all
  have len_new: "\<And>x c. length x = W \<Longrightarrow>
      length (simd_jmax (replicate W (- 1)) (simd_jmin (replicate W 1)
        (simd_add x (simd_mul ?dl (replicate W c))))) = W"
    "\<And>x c. length x = W \<Longrightarrow>
      length (simd_jmax (replicate W (- 1)) (simd_jmin (replicate W 1)
        (simd_add x (simd_mul ?dr (replicate W c))))) = W"
    using lenL lenR by simp_all
  have ld': "buf_load W (bufferLeft t @ ta) ?o = Inr ?dl"
    "buf_load W (bufferRight t @ tb) ?o = Inr ?dr"
    using ld by (simp_all add: buf_load_append)
  show ?thesis
    using assms b
    by (auto simp: simd_group_def Let_def with_tails_def ld ld' buf_store_append len_new)
qed

lemma chunk_loop_tails:
  "chunk_loop W e chunk k t = Inr t' \<Longrightarrow>
     chunk_loop W e chunk k (with_tails ta tb t) = Inr (with_tails ta tb t')"
proof (induction "nat (k - chunk)" arbitrary: chunk t)
  case 0
  then show ?case by (simp add: chunk_loop_done)
next
  case (Suc j)
  then have lt: "chunk < k" by linarith
  have j: "j = nat (k - (chunk + 1))" using Suc.hyps(2) by linarith
  from Suc.prems lt obtain t1 where t1: "simd_group W e chunk t = Inr t1"
    and rest: "chunk_loop W e (chunk + 1) k t1 = Inr t'"
    by (auto simp: chunk_loop_step split: sum.splits)
  show ?case
    using Suc.hyps(1) [OF j rest] simd_group_tails [OF t1] lt by (simp add: chunk_loop_step)
qed

lemma with_tails_fields [simp]:
  "idx (with_tails ta tb t) = idx t"
  "with_tails ta tb (t\<lparr>idx := x\<rparr>) = (with_tails ta tb t)\<lparr>idx := x\<rparr>"
  "heap (with_tails ta tb t) = heap t"
  by (simp_all add: with_tails_def)

lemma tail_loop_tails:
  "tail_loop e i n t = Inr t' \<Longrightarrow>
     tail_loop e i n (with_tails ta tb t) = Inr (with_tails ta tb t')"
proof (induction "nat (n - i)" arbitrary: i t)
  case 0
  then show ?case by (simp add: tail_loop_done)
next
  case (Suc j)
  then have lt: "i < n" by linarith
  have j: "j = nat (n - (i + 1))" using Suc.hyps(2) by linarith
  from Suc.prems lt obtain t1 where t1: "process_sample e 0 t = Inr t1"
    and rest: "tail_loop e (i + 1) n
            (t1\<lparr>inputLeft := inputLeft t1 + 1, inputRight := inputRight t1 + 1,
                outputLeft := outputLeft t1 + 1, outputRight := outputRight t1 + 1,
                idx := idx t1 + 1\<rparr>) = Inr t'"
    by (auto simp: tail_loop_step split: sum.splits)
  have "with_tails ta tb (t1\<lparr>inputLeft := inputLeft t1 + 1, inputRight := inputRight t1 + 1,
                outputLeft := outputLeft t1 + 1, outputRight := outputRight t1 + 1,
                idx := idx t1 + 1\<rparr>)
      = (with_tails ta tb t1)\<lparr>inputLeft := inputLeft (with_tails ta tb t1) + 1,
           inputRight := inputRight (with_tails ta tb t1) + 1,
           outputLeft := outputLeft (with_tails ta tb t1) + 1,
           outputRight := outputRight (with_tails ta tb t1) + 1,
           idx := idx (with_tails ta tb t1) + 1\<rparr>"
    by (simp add: with_tails_def)
  then show ?case
    using Suc.hyps(1) [OF j rest] process_sample_tails [OF t1] lt by (simp add: tail_loop_step)
qed

lemma simd_segment_tails:
  assumes "simd_segment W e r t = Inr (r', t')"
  shows "simd_segment W e r (with_tails ta tb t) = Inr (r', with_tails ta tb t')"
proof -
  let ?m = "samplesToEdge e r t"
  let ?k = "cpp_div ?m (int W)"
  from assms obtain t1 t2 where t1: "chunk_loop W e 0 ?k t = Inr t1"
    and t2: "tail_loop e 0 (cpp_mod ?m (int W)) (t1\<lparr>idx := idx t1 + ?k * int W\<rparr>) = Inr t2"
    and t': "t' = t2\<lparr>idx := (if idx t2 \<ge> delaySamples e then 0 else idx t2)\<rparr>"
    and r': "r' = r - ?m"
    by (auto simp: simd_segment_def Let_def split: sum.splits)
  have m: "samplesToEdge e r (with_tails ta tb t) = ?m"
    by (simp add: samplesToEdge_def)
  show ?thesis
    using chunk_loop_tails [OF t1, of ta tb] tail_loop_tails [OF t2, of ta tb]
    by (simp add: simd_segment_def Let_def m t' r')
qed

lemma simd_while_tails_aux:
  "simd_while W e r t = Some y \<Longrightarrow>
     (\<forall>t'. y = Inr t' \<longrightarrow> simd_while W e r (with_tails ta tb t) = Some (Inr (with_tails ta tb t')))"
proof (induction rule: simd_while.raw_induct [rotated 1, consumes 1])
  case (1 simd_while' W e r t y)
  show ?case
  proof (intro allI impI)
    fix t'
    assume y: "y = Inr t'"
    show "simd_while W e r (with_tails ta tb t) = Some (Inr (with_tails ta tb t'))"
    proof (cases "0 < r")
      case False
      then show ?thesis using 1(2) y by (subst simd_while.simps) simp
    next
      case True
      with 1(2) y obtain r1 t1 where seg: "simd_segment W e r t = Inr (r1, t1)"
        and rest: "simd_while' W e r1 t1 = Some y"
        by (auto split: sum.splits)
      show ?thesis
        using 1(1) [OF rest] y simd_segment_tails [OF seg, of ta tb] True
        by (subst simd_while.simps) simp
    qed
  qed
qed

lemma simd_while_tails:
  "simd_while W e r t = Some (Inr t') \<Longrightarrow>
     simd_while W e r (with_tails ta tb t) = Some (Inr (with_tails ta tb t'))"
  using simd_while_tails_aux by blast

subsection \<open>The loops read four fields of the engine\<close>

lemma simd_group_params:
  "same_params e e' \<Longrightarrow> simd_group W e' chunk s = simd_group W e chunk s"
  by (simp add: simd_group_def same_params_def)

lemma process_sample_same_params:
  "same_params e e' \<Longrightarrow> process_sample e' i s = process_sample e i s"
  by (rule process_sample_params) (simp_all add: same_params_def)

lemma chunk_loop_params:
  assumes "same_params e e'"
  shows "chunk_loop W e' chunk k s = chunk_loop W e chunk k s"
proof (induction "nat (k - chunk)" arbitrary: chunk s)
  case 0
  then show ?case by (simp add: chunk_loop_done)
next
  case (Suc j)
  then have lt: "chunk < k" by linarith
  have j: "j = nat (k - (chunk + 1))" using Suc.hyps(2) by linarith
  show ?case
    using Suc.hyps(1) [OF j] lt
    by (simp add: chunk_loop_step simd_group_params [OF assms] split: sum.splits)
qed

lemma tail_loop_params:
  assumes "same_params e e'"
  shows "tail_loop e' i n s = tail_loop e i n s"
proof (induction "nat (n - i)" arbitrary: i s)
  case 0
  then show ?case by (simp add: tail_loop_done)
next
  case (Suc j)
  then have lt: "i < n" by linarith
  have j: "j = nat (n - (i + 1))" using Suc.hyps(2) by linarith
  show ?case
    using Suc.hyps(1) [OF j] lt
    by (simp add: tail_loop_step process_sample_same_params [OF assms] split: sum.splits)
qed

lemma simd_segment_params:
  assumes "same_params e e'"
  shows "simd_segment W e' r s = simd_segment W e r s"
proof -
  have d: "delaySamples e' = delaySamples e" using assms by (simp add: same_params_def)
  show ?thesis
    by (simp add: simd_segment_def samplesToEdge_def d chunk_loop_params [OF assms]
        tail_loop_params [OF assms] cong: sum.case_cong)
qed

lemma simd_while_params_aux:
  "simd_while W e r s = Some y \<Longrightarrow> (\<forall>e'. same_params e e' \<longrightarrow> simd_while W e' r s = Some y)"
proof (induction rule: simd_while.raw_induct [rotated 1, consumes 1])
  case (1 simd_while' W e r s y)
  show ?case
  proof (intro allI impI)
    fix e'
    assume p: "same_params e e'"
    show "simd_while W e' r s = Some y"
    proof (cases "0 < r")
      case False
      then show ?thesis using 1(2) by (subst simd_while.simps) simp
    next
      case True
      show ?thesis
      proof (cases "simd_segment W e r s")
        case (Inl err)
        then show ?thesis
          using 1(2) True by (subst simd_while.simps) (simp add: simd_segment_params [OF p])
      next
        case (Inr p1)
        obtain r1 s1 where p1: "p1 = (r1, s1)" by (cases p1)
        have rest: "simd_while' W e r1 s1 = Some y" using 1(2) True Inr p1 by simp
        show ?thesis
          using 1(1) [OF rest] p True Inr p1
          by (subst simd_while.simps) (simp add: simd_segment_params [OF p])
      qed
    qed
  qed
qed

lemma simd_while_params:
  "same_params e e' \<Longrightarrow> simd_while W e r s = Some y \<Longrightarrow> simd_while W e' r s = Some y"
  using simd_while_params_aux by blast

subsection \<open>A whole block\<close>

lemma simd_block_safe:
  assumes W: "0 < W" and p: "prepared e"
    and i0: "0 \<le> delayIndex e" and i1: "delayIndex e < delaySamples e"
    and lenL: "delaySamples e \<le> int (length (delayLineLeft e))"
    and lenR: "delaySamples e \<le> int (length (delayLineRight e))"
  shows "\<exists>s'. simd_while W e numSamples (enter e h inL inR outL outR) = Some (Inr s')
           \<and> processBlockSIMD W e h inL inR outL outR numSamples = Some (Inr (leave e s'))
           \<and> 0 \<le> idx s' \<and> idx s' < delaySamples e
           \<and> advanced (delaySamples e) (max 0 numSamples) (enter e h inL inR outL outR) s'
           \<and> processBlockSIMD W (active_part e) h inL inR outL outR numSamples
               = Some (Inr (heap s', active_part (snd (leave e s'))))"
proof -
  let ?L = "delaySamples e"
  let ?s0 = "enter e h inL inR outL outR"
  let ?t0 = "enter (active_part e) h inL inR outL outR"
  let ?ta = "drop (nat ?L) (delayLineLeft e)"
  let ?tb = "drop (nat ?L) (delayLineRight e)"
  have sp: "same_params e (active_part e)" by (simp add: same_params_def active_part_def)
  have t0: "0 \<le> idx ?t0" "idx ?t0 < ?L" "?L \<le> int (length (bufferLeft ?t0))"
    "?L \<le> int (length (bufferRight ?t0))"
    using i0 i1 lenL lenR by (simp_all add: enter_def active_part_def)
  from simd_while_advanced [OF W t0, of numSamples] obtain t' where
    t': "simd_while W e numSamples ?t0 = Some (Inr t')" "0 \<le> idx t'" "idx t' < ?L"
      "advanced ?L (max 0 numSamples) ?t0 t'"
    by blast
  have s0: "?s0 = with_tails ?ta ?tb ?t0"
    by (simp add: enter_def active_part_def with_tails_def)
  let ?s' = "with_tails ?ta ?tb t'"
  have run: "simd_while W e numSamples ?s0 = Some (Inr ?s')"
    unfolding s0 by (rule simd_while_tails [OF t'(1)])
  have lens: "length (bufferLeft t') = nat ?L" "length (bufferRight t') = nat ?L"
    using t'(4) lenL lenR by (simp_all add: advanced_def enter_def active_part_def)
  have adv: "advanced ?L (max 0 numSamples) ?s0 ?s'"
    using t'(4) lens lenL lenR
    by (auto simp: advanced_def with_tails_def enter_def active_part_def)
  have cut: "simd_while W (active_part e) numSamples ?t0 = Some (Inr t')"
    by (rule simd_while_params [OF sp t'(1)])
  have lv: "leave (active_part e) t' = (heap ?s', active_part (snd (leave e ?s')))"
    using lens by (simp add: leave_def active_part_def with_tails_def)
  have "processBlockSIMD W (active_part e) h inL inR outL outR numSamples
      = Some (Inr (heap ?s', active_part (snd (leave e ?s'))))"
    using p cut lv by (simp add: processBlockSIMD_def active_part_def)
  moreover have "processBlockSIMD W e h inL inR outL outR numSamples = Some (Inr (leave e ?s'))"
    using p run by (simp add: processBlockSIMD_def)
  ultimately show ?thesis
    using run t'(2,3) adv by (intro exI [of _ ?s']) simp
qed

lemma engine_stale_fields:
  "engine_stale = engine_4\<lparr>delayIndex := 3, delaySamples := 2\<rparr>"
  by (simp add: engine_stale_def engine_4_def setDelaySeconds_def static_cast_int_nonneg
      jlimit_def)

lemma stale_cursor_overruns:
  "do_call 4 (ProcessBlockSIMD (\<lambda>a. 0) 0 10 20 30 3) engine_4 = Some (engine_4\<lparr>delayIndex := 3\<rparr>)"
  "setDelaySeconds (1 / 2) (engine_4\<lparr>delayIndex := 3\<rparr>) = Inr engine_stale"
  "delayIndex engine_stale = 3" "delaySamples engine_stale = 2"
  "samplesToEdge engine_stale 2 (enter engine_stale ramp 0 10 20 30) = - 1"
  "map (fst (projr (the (processBlockSIMD 4 engine_stale ramp 0 10 20 30 2)))) [20, 21, 22]
     = [1 / 2, 1 / 2, 1]"
  "ramp 22 = 0"
       apply (simp add: engine_4_def eval_defs eval_nat_numeral)
      apply (simp add: engine_stale_def engine_4_def setDelaySeconds_def static_cast_int_nonneg)
     apply (simp add: engine_stale_fields)
    apply (simp add: engine_stale_fields)
   apply (simp add: engine_stale_fields engine_4_def samplesToEdge_def enter_def jmin_def)
  apply (simp add: engine_stale_fields engine_4_def ramp_def eval_defs eval_nat_numeral)
  apply (simp add: ramp_def)
  done


section \<open>The SIMD path against the scalar path, on separate arrays\<close>

text \<open>
  A vector group of \<open>W\<close> lanes is compared with \<open>W\<close> passes of the scalar tail
  loop by taking off its first lane; the segments of the SIMD path are then runs
  of the tail loop, and these are the passes of the scalar loop between two
  wraps of the cursor.
\<close>

lemma simd_group_group_at:
  "simd_group W e chunk s = group_at W e (idx s + chunk * int W) s"
  by (simp add: group_at_def simd_group_def Let_def split: sum.splits)

lemma fromRawArray_Suc: "fromRawArray (Suc W) h p = h p # fromRawArray W h (p + 1)"
proof -
  have "[0..<Suc W] = 0 # map Suc [0..<W]"
    by (simp add: upt_conv_Cons map_Suc_upt del: upt_Suc)
  then show ?thesis
    by (simp add: fromRawArray_def comp_def add.assoc del: upt_Suc)
qed

lemma copyToRawArray_Nil [simp]: "copyToRawArray [] p h = h"
  by (simp add: copyToRawArray_def fun_eq_iff)

lemma copyToRawArray_Cons: "copyToRawArray (x # v) p h = copyToRawArray v (p + 1) (h(p := x))"
proof (rule ext)
  fix a
  show "copyToRawArray (x # v) p h a = copyToRawArray v (p + 1) (h(p := x)) a"
  proof (cases "p < a \<and> a < p + 1 + int (length v)")
    case True
    then have "nat (a - p) = Suc (nat (a - (p + 1)))" by linarith
    then show ?thesis using True by (simp add: copyToRawArray_def)
  next
    case False
    then show ?thesis by (auto simp: copyToRawArray_def)
  qed
qed

lemma copyToRawArray_upd_commute:
  "\<not> (p \<le> q \<and> q < p + int (length v)) \<Longrightarrow>
     (copyToRawArray v p h)(q := x) = copyToRawArray v p (h(q := x))"
  by (auto simp: copyToRawArray_def fun_eq_iff)

lemma buf_load_Suc:
  assumes "0 \<le> offset" "offset < int (length b)"
  shows "take (Suc W) (drop (nat offset) b) = b ! nat offset # take W (drop (nat (offset + 1)) b)"
proof -
  have "nat offset < length b" using assms by linarith
  then have "drop (nat offset) b = b ! nat offset # drop (Suc (nat offset)) b"
    by (simp add: Cons_nth_drop_Suc)
  moreover have "nat (offset + 1) = Suc (nat offset)" using assms(1) by linarith
  ultimately show ?thesis by simp
qed

lemma buf_store_Cons:
  assumes "0 \<le> offset" "offset < int (length b)"
  shows "buf_store (x # v) offset b = buf_store v (offset + 1) (b[nat offset := x])"
proof -
  have n: "nat offset < length b" using assms by linarith
  have s: "nat (offset + 1) = Suc (nat offset)" using assms(1) by linarith
  have "take (Suc (nat offset)) (b[nat offset := x]) = take (nat offset) b @ [x]"
    using n by (simp add: take_Suc_conv_app_nth)
  then show ?thesis
    by (simp add: buf_store_def s drop_update_cancel)
qed

lemma fromRawArray_cong:
  "(\<And>j. j < W \<Longrightarrow> h' (p + int j) = h (p + int j)) \<Longrightarrow> fromRawArray W h' p = fromRawArray W h p"
  by (simp add: fromRawArray_def)

lemma jlimit_unit_eq: "jlimit (- 1) 1 (x::real) = max (- 1) (min 1 x)"
  by (simp add: jlimit_def max_def min_def)

lemma separate_cells:
  assumes "separate inL inR outL outR n" "0 \<le> j" "j < n" "0 \<le> k" "k < n"
  shows "outL + j \<noteq> inL + k" "outL + j \<noteq> inR + k" "outR + j \<noteq> inL + k"
    "outR + j \<noteq> inR + k" "outL + j \<noteq> outR + k"
  using assms unfolding separate_def by linarith+

lemma group_at_Suc:
  assumes o: "0 \<le> offset" and bl: "offset + 1 + int W \<le> int (length (bufferLeft s))"
    and br: "offset + 1 + int W \<le> int (length (bufferRight s))"
    and sep: "separate_state s (1 + int W)"
  shows "group_at (Suc W) e offset s =
     (case process_sample e 0 (s\<lparr>idx := offset\<rparr>) of
        Inl err \<Rightarrow> Inl err
      | Inr s1 \<Rightarrow> group_at W e (offset + 1) ((next_sample s1)\<lparr>idx := idx s\<rparr>))"
proof -
  note c = separate_cells [OF sep [unfolded separate_state_def]]
  have lt: "offset < int (length (bufferLeft s))" "offset < int (length (bufferRight s))"
    using bl br by linarith+
  have ne: "outputLeft s \<noteq> inputLeft s" "outputLeft s \<noteq> inputRight s"
    "outputRight s \<noteq> inputLeft s" "outputRight s \<noteq> inputRight s"
    "outputLeft s \<noteq> outputRight s"
    using c [of 0 0] by simp_all
  let ?h2 = "(heap s)(outputLeft s := heap s (inputLeft s) * dryMix e + bufferLeft s ! nat offset * wetMix e,
        outputRight s := heap s (inputRight s) * dryMix e + bufferRight s ! nat offset * wetMix e)"
  have inl: "fromRawArray W ?h2 (inputLeft s + 1) = fromRawArray W (heap s) (inputLeft s + 1)"
  proof (rule fromRawArray_cong)
    fix j assume "j < W"
    then show "?h2 (inputLeft s + 1 + int j) = heap s (inputLeft s + 1 + int j)"
      using c(1) [of 0 "1 + int j"] c(3) [of 0 "1 + int j"] by (simp add: add.assoc)
  qed
  have inr: "fromRawArray W ?h2 (inputRight s + 1) = fromRawArray W (heap s) (inputRight s + 1)"
  proof (rule fromRawArray_cong)
    fix j assume "j < W"
    then show "?h2 (inputRight s + 1 + int j) = heap s (inputRight s + 1 + int j)"
      using c(2) [of 0 "1 + int j"] c(4) [of 0 "1 + int j"] by (simp add: add.assoc)
  qed
  have comm: "\<And>v x g. length v \<le> W \<Longrightarrow>
      (copyToRawArray v (outputLeft s + 1) g)(outputRight s := x)
        = copyToRawArray v (outputLeft s + 1) (g(outputRight s := x))"
  proof (rule copyToRawArray_upd_commute)
    fix v :: "real list" assume v: "length v \<le> W"
    have "1 + int W \<le> \<bar>outputLeft s - outputRight s\<bar>"
      using sep by (simp add: separate_state_def separate_def)
    then show "\<not> (outputLeft s + 1 \<le> outputRight s
        \<and> outputRight s < outputLeft s + 1 + int (length v))"
      using v by linarith
  qed
  show ?thesis
    using o lt bl br ne
    apply (simp add: comm group_at_def simd_group_def process_sample_def buf_read_def Let_def
        buf_load_def next_sample_def fromRawArray_Suc buf_load_Suc buf_store_Cons
        copyToRawArray_Cons simd_add_def simd_mul_def simd_jmin_def simd_jmax_def
        jlimit_unit_eq inl inr drop_update_cancel)
    apply (simp add: mult.commute add.assoc)
    done
qed

lemma separate_shift:
  "separate_state s n \<Longrightarrow> n' \<le> n \<Longrightarrow>
     inputLeft s' = inputLeft s + k \<Longrightarrow> inputRight s' = inputRight s + k \<Longrightarrow>
     outputLeft s' = outputLeft s + k \<Longrightarrow> outputRight s' = outputRight s + k \<Longrightarrow>
     separate_state s' n'"
  by (simp add: separate_state_def separate_def)

lemma process_sample_lengths:
  "process_sample e i s = Inr s' \<Longrightarrow>
     length (bufferLeft s') = length (bufferLeft s) \<and> length (bufferRight s') = length (bufferRight s)"
  by (auto simp: process_sample_def Let_def split: sum.splits)

lemma tail_loop_step':
  "i < t \<Longrightarrow> tail_loop e i t s =
     (case process_sample e 0 s of
        Inl err \<Rightarrow> Inl err
      | Inr s' \<Rightarrow> tail_loop e (i + 1) t (next_sample s'))"
  by (simp add: tail_loop_step next_sample_def cong: sum.case_cong)

lemma tail_loop_counter: "tail_loop e (i + k) (n + k) s = tail_loop e i n s"
proof (induction "nat (n - i)" arbitrary: i s)
  case 0
  then show ?case by (simp add: tail_loop_done)
next
  case (Suc j)
  then have lt: "i < n" by linarith
  have j: "j = nat (n - (i + 1))" using Suc.hyps(2) by linarith
  have eq: "i + 1 + k = i + k + 1" by simp
  show ?case
    using Suc.hyps(1) [OF j, unfolded eq] lt
    by (simp add: tail_loop_step' cong: sum.case_cong)
qed

lemma tail_loop_split:
  "i \<le> m \<Longrightarrow> m \<le> n \<Longrightarrow>
     tail_loop e i n s =
       (case tail_loop e i m s of Inl err \<Rightarrow> Inl err | Inr s' \<Rightarrow> tail_loop e m n s')"
proof (induction "nat (m - i)" arbitrary: i s)
  case 0
  then have "i = m" by simp
  then show ?case by (simp add: tail_loop_done)
next
  case (Suc k)
  then have lt: "i < m" "i < n" by linarith+
  have k: "k = nat (m - (i + 1))" using Suc.hyps(2) by linarith
  show ?case
  proof (cases "process_sample e 0 s")
    case (Inl err)
    then show ?thesis by (simp add: tail_loop_step' lt)
  next
    case (Inr s')
    show ?thesis
      using Suc.hyps(1) [OF k, of "next_sample s'"] lt Suc.prems
      by (simp add: tail_loop_step' Inr)
  qed
qed

lemma group_at_tail_loop:
  "0 \<le> offset \<Longrightarrow> offset + int W \<le> int (length (bufferLeft s)) \<Longrightarrow>
     offset + int W \<le> int (length (bufferRight s)) \<Longrightarrow> separate_state s (int W) \<Longrightarrow>
     group_at W e offset s
       = map_sum id (\<lambda>s'. s'\<lparr>idx := idx s\<rparr>) (tail_loop e 0 (int W) (s\<lparr>idx := offset\<rparr>))"
proof (induction W arbitrary: offset s)
  case 0
  then show ?case
    by (simp add: group_at_def simd_group_def buf_load_def buf_store_def tail_loop_done
        simd_add_def simd_mul_def simd_jmin_def simd_jmax_def fromRawArray_def)
next
  case (Suc W)
  have b: "offset + 1 + int W \<le> int (length (bufferLeft s))"
    "offset + 1 + int W \<le> int (length (bufferRight s))"
    using Suc.prems(2,3) by simp_all
  have sep: "separate_state s (1 + int W)" using Suc.prems(4) by (simp add: add.commute)
  show ?case
  proof (cases "process_sample e 0 (s\<lparr>idx := offset\<rparr>)")
    case (Inl err)
    then show ?thesis
      by (simp add: group_at_Suc [OF Suc.prems(1) b sep] tail_loop_step')
  next
    case (Inr s1)
    let ?t = "(next_sample s1)\<lparr>idx := idx s\<rparr>"
    have p: "inputLeft s1 = inputLeft s" "inputRight s1 = inputRight s"
      "outputLeft s1 = outputLeft s" "outputRight s1 = outputRight s" "idx s1 = offset"
      using process_sample_pointers [OF Inr] by simp_all
    have l: "length (bufferLeft s1) = length (bufferLeft s)"
      "length (bufferRight s1) = length (bufferRight s)"
      using process_sample_lengths [OF Inr] by simp_all
    have t1: "?t\<lparr>idx := offset + 1\<rparr> = next_sample s1"
      by (simp add: next_sample_def p)
    have pre: "0 \<le> offset + 1" "offset + 1 + int W \<le> int (length (bufferLeft ?t))"
      "offset + 1 + int W \<le> int (length (bufferRight ?t))"
      using Suc.prems(1) b l by (simp_all add: next_sample_def)
    have sept: "separate_state ?t (int W)"
      by (rule separate_shift [OF sep, of _ _ 1]) (simp_all add: next_sample_def p)
    have "group_at (Suc W) e offset s = group_at W e (offset + 1) ?t"
      by (simp add: group_at_Suc [OF Suc.prems(1) b sep] Inr)
    also have "\<dots> = map_sum id (\<lambda>s'. s'\<lparr>idx := idx ?t\<rparr>) (tail_loop e 0 (int W) (next_sample s1))"
      using Suc.IH [OF pre sept] by (simp only: t1)
    also have "idx ?t = idx s" by simp
    finally show ?thesis
      using tail_loop_counter [of e 0 1 "int W" "next_sample s1"]
      by (simp add: tail_loop_step' Inr add.commute)
  qed
qed

lemma tail_loop_advanced0:
  assumes "0 \<le> m" "0 \<le> idx s" "idx s + m \<le> L"
    "L \<le> int (length (bufferLeft s))" "L \<le> int (length (bufferRight s))"
  shows "\<exists>s'. tail_loop e 0 m s = Inr s' \<and> idx s' = idx s + m \<and> advanced L m s s'"
  using tail_loop_advanced [of 0 m s L e] assms by simp

lemma chunk_loop_tail_loop:
  assumes "0 \<le> chunk" "chunk \<le> k" "0 \<le> idx s" "idx s + k * int W \<le> L"
    "L \<le> int (length (bufferLeft s))" "L \<le> int (length (bufferRight s))"
    "separate_state s ((k - chunk) * int W)"
  shows "chunk_loop W e chunk k s
       = map_sum id (\<lambda>s'. s'\<lparr>idx := idx s\<rparr>)
           (tail_loop e 0 ((k - chunk) * int W) (s\<lparr>idx := idx s + chunk * int W\<rparr>))"
  using assms
proof (induction "nat (k - chunk)" arbitrary: chunk s)
  case 0
  then have "chunk = k" by simp
  then show ?case by (simp add: chunk_loop_done tail_loop_done)
next
  case (Suc j)
  then have lt: "chunk < k" by linarith
  have j: "j = nat (k - (chunk + 1))" using Suc.hyps(2) by linarith
  let ?o = "idx s + chunk * int W"
  let ?s0 = "s\<lparr>idx := ?o\<rparr>"
  have cW: "chunk * int W + int W \<le> k * int W"
    using lt by (metis add.commute distrib_right mult.left_neutral mult_right_mono
        of_nat_0_le_iff zless_imp_add1_zle)
  have c0: "0 \<le> chunk * int W" using Suc.prems(1) by simp
  have o: "0 \<le> ?o" "?o + int W \<le> L" using Suc.prems c0 cW by linarith+
  have oL: "?o + int W \<le> int (length (bufferLeft s))" "?o + int W \<le> int (length (bufferRight s))"
    using o Suc.prems(5,6) by linarith+
  have rest_eq: "(k - chunk) * int W = int W + (k - (chunk + 1)) * int W"
    by (simp add: algebra_simps)
  have rest0: "0 \<le> (k - (chunk + 1)) * int W" using lt by simp
  have sepW: "separate_state s (int W)"
    by (rule separate_shift [OF Suc.prems(7), of _ _ 0]) (use rest_eq rest0 in simp_all)
  from tail_loop_advanced0 [of "int W" ?s0 L e] o Suc.prems(5,6) obtain s1 where
    s1: "tail_loop e 0 (int W) ?s0 = Inr s1" "idx s1 = ?o + int W" "advanced L (int W) ?s0 s1"
    by auto
  have grp: "simd_group W e chunk s = Inr (s1\<lparr>idx := idx s\<rparr>)"
    using group_at_tail_loop [OF o(1) oL sepW, of e] s1(1) by (simp add: simd_group_group_at)
  let ?s1 = "s1\<lparr>idx := idx s\<rparr>"
  have adv: "advanced L (int W) s ?s1" using s1(3) by simp
  have len1: "L \<le> int (length (bufferLeft ?s1))" "L \<le> int (length (bufferRight ?s1))"
    using adv Suc.prems(5,6) by (simp_all add: advanced_def)
  have sep1: "separate_state ?s1 ((k - (chunk + 1)) * int W)"
    by (rule separate_shift [OF Suc.prems(7), of _ _ "int W"])
      (use adv rest_eq in \<open>simp_all add: advanced_def\<close>)
  have pre: "0 \<le> chunk + 1" "chunk + 1 \<le> k" "0 \<le> idx ?s1" "idx ?s1 + k * int W \<le> L"
    using Suc.prems lt by simp_all
  have again: "?s1\<lparr>idx := idx ?s1 + (chunk + 1) * int W\<rparr> = s1"
    using s1(2) by (simp add: algebra_simps)
  have "chunk_loop W e chunk k s = chunk_loop W e (chunk + 1) k ?s1"
    using lt grp by (simp add: chunk_loop_step)
  also have "\<dots> = map_sum id (\<lambda>s'. s'\<lparr>idx := idx s\<rparr>)
       (tail_loop e 0 ((k - (chunk + 1)) * int W) s1)"
    using Suc.hyps(1) [OF j pre len1 sep1] by (simp only: again) simp
  also have "tail_loop e 0 ((k - (chunk + 1)) * int W) s1
      = tail_loop e (int W) ((k - chunk) * int W) s1"
    using tail_loop_counter [of e 0 "int W" "(k - (chunk + 1)) * int W" s1]
    by (simp add: rest_eq add.commute)
  also have "map_sum id (\<lambda>s'. s'\<lparr>idx := idx s\<rparr>) (tail_loop e (int W) ((k - chunk) * int W) s1)
      = map_sum id (\<lambda>s'. s'\<lparr>idx := idx s\<rparr>) (tail_loop e 0 ((k - chunk) * int W) ?s0)"
    using tail_loop_split [of 0 "int W" "(k - chunk) * int W" e ?s0] s1(1) rest_eq rest0
    by simp
  finally show ?case .
qed

lemma simd_segment_tail_loop:
  assumes W: "0 < W" and r: "0 < r" and i0: "0 \<le> idx s" and i1: "idx s < delaySamples e"
    and lenL: "delaySamples e \<le> int (length (bufferLeft s))"
    and lenR: "delaySamples e \<le> int (length (bufferRight s))"
    and sep: "separate_state s (samplesToEdge e r s)"
  shows "\<exists>s2. tail_loop e 0 (samplesToEdge e r s) s = Inr s2
           \<and> idx s2 = idx s + samplesToEdge e r s
           \<and> advanced (delaySamples e) (samplesToEdge e r s) s s2
           \<and> simd_segment W e r s
               = Inr (r - samplesToEdge e r s,
                      s2\<lparr>idx := (if idx s2 \<ge> delaySamples e then 0 else idx s2)\<rparr>)"
proof -
  let ?L = "delaySamples e"
  let ?m = "samplesToEdge e r s"
  let ?k = "cpp_div ?m (int W)"
  let ?t = "cpp_mod ?m (int W)"
  have m: "0 < ?m" "?m \<le> r" "idx s + ?m \<le> ?L"
    using r i1 by (simp_all add: samplesToEdge_def jmin_def)
  have k: "?k = ?m div int W" and t: "?t = ?m mod int W"
    using m(1) W by (simp_all add: cpp_div_nonneg cpp_mod_nonneg)
  have k0: "0 \<le> ?k" using k m(1) W by (simp add: pos_imp_zdiv_nonneg_iff)
  have t0: "0 \<le> ?t" using t W by simp
  have km: "?k * int W + ?t = ?m" using k t by simp
  have kW0: "0 \<le> ?k * int W" using k0 by simp
  have kW: "idx s + ?k * int W \<le> ?L" using km t0 m(3) by linarith
  from tail_loop_advanced0 [of ?m s ?L e] m i0 lenL lenR obtain s2 where
    s2: "tail_loop e 0 ?m s = Inr s2" "idx s2 = idx s + ?m" "advanced ?L ?m s s2"
    by auto
  from tail_loop_advanced0 [of "?k * int W" s ?L e] kW0 kW i0 lenL lenR obtain s1 where
    s1: "tail_loop e 0 (?k * int W) s = Inr s1" "idx s1 = idx s + ?k * int W"
    by auto
  have sepk: "separate_state s ((?k - 0) * int W)"
    by (rule separate_shift [OF sep, of _ _ 0]) (use km t0 in simp_all)
  have ch: "chunk_loop W e 0 ?k s = Inr (s1\<lparr>idx := idx s\<rparr>)"
    using chunk_loop_tail_loop [OF _ k0 i0 kW lenL lenR sepk, of e] s1(1) by simp
  have again: "s1\<lparr>idx := idx s, idx := idx s + ?k * int W\<rparr> = s1"
    using s1(2) by simp
  have "tail_loop e 0 ?m s = tail_loop e (?k * int W) ?m s1"
    using tail_loop_split [of 0 "?k * int W" ?m e s] s1(1) kW0 km t0 by simp
  also have "\<dots> = tail_loop e 0 ?t s1"
    using tail_loop_counter [of e 0 "?k * int W" ?t s1] km by (simp add: add.commute)
  finally have tl: "tail_loop e 0 ?t s1 = Inr s2" using s2(1) by simp
  have "simd_segment W e r s
      = Inr (r - ?m, s2\<lparr>idx := (if idx s2 \<ge> ?L then 0 else idx s2)\<rparr>)"
    by (simp add: simd_segment_def Let_def ch again tl)
  then show ?thesis using s2 by blast
qed

lemma shift_simps [simp]:
  "shift a (shift b s) = shift (a + b) s"
  "shift 0 s = s"
  "idx (shift k s) = idx s"
  "shift k (s\<lparr>idx := x\<rparr>) = (shift k s)\<lparr>idx := x\<rparr>"
  "bufferLeft (shift k s) = bufferLeft s"
  "bufferRight (shift k s) = bufferRight s"
  "heap (shift k s) = heap s"
  by (simp_all add: shift_def)

lemma next_sample_shift: "next_sample (shift i s) = shift (i + 1) (s\<lparr>idx := idx s + 1\<rparr>)"
  by (simp add: next_sample_def shift_def)

lemma scalar_loop_tail_loop:
  "i \<le> n \<Longrightarrow> idx s + (n - i) \<le> delaySamples e \<Longrightarrow>
     scalar_loop e i n s =
       (case tail_loop e i n (shift i s) of
          Inl err \<Rightarrow> Inl err
        | Inr t \<Rightarrow> Inr ((shift (- n) t)
            \<lparr>idx := (if i < n \<and> idx t \<ge> delaySamples e then 0 else idx t)\<rparr>))"
proof (induction "nat (n - i)" arbitrary: i s)
  case 0
  then have "i = n" by simp
  then show ?case by (simp add: scalar_loop_done tail_loop_done)
next
  case (Suc j)
  then have lt: "i < n" by linarith
  have j: "j = nat (n - (i + 1))" using Suc.hyps(2) by linarith
  have ps: "process_sample e 0 (shift i s) = map_sum id (shift i) (process_sample e i s)"
    using process_sample_shift [of e 0 i s] by simp
  show ?case
  proof (cases "process_sample e i s")
    case (Inl err)
    then show ?thesis using lt by (simp add: scalar_loop_step tail_loop_step' ps)
  next
    case (Inr s1)
    have i1: "idx s1 = idx s" using process_sample_pointers [OF Inr] by simp
    let ?s1 = "s1\<lparr>idx := idx s1 + 1\<rparr>"
    show ?thesis
    proof (cases "i + 1 < n")
      case True
      then have nowrap: "\<not> delaySamples e \<le> idx s1 + 1" using Suc.prems(2) i1 by linarith
      have pre: "i + 1 \<le> n" "idx ?s1 + (n - (i + 1)) \<le> delaySamples e"
        using True Suc.prems(2) i1 by simp_all
      have L: "scalar_loop e i n s = scalar_loop e (i + 1) n ?s1"
        using lt nowrap by (simp add: scalar_loop_step Inr)
      have R: "tail_loop e i n (shift i s) = tail_loop e (i + 1) n (shift (i + 1) ?s1)"
        using lt by (simp add: tail_loop_step' ps Inr next_sample_shift)
      show ?thesis
        unfolding L R Suc.hyps(1) [OF j pre]
        using True lt by (simp cong: sum.case_cong)
    next
      case False
      then have n: "n = i + 1" using lt by linarith
      show ?thesis
        using lt
        by (simp add: scalar_loop_step tail_loop_step' ps Inr next_sample_shift n
            scalar_loop_done tail_loop_done)
    qed
  qed
qed

lemma simd_while_scalar_loop:
  assumes W: "0 < W"
  shows "0 \<le> idx s \<Longrightarrow> idx s < delaySamples e \<Longrightarrow>
     delaySamples e \<le> int (length (bufferLeft s)) \<Longrightarrow>
     delaySamples e \<le> int (length (bufferRight s)) \<Longrightarrow>
     separate_state s (max 0 r) \<Longrightarrow>
     simd_while W e r s = Some (map_sum id (shift (max 0 r)) (scalar_loop e 0 r s))"
proof (induction "nat r" arbitrary: r s rule: less_induct)
  case less
  show ?case
  proof (cases "0 < r")
    case False
    then show ?thesis
      by (subst simd_while.simps) (simp add: scalar_loop_done max_def)
  next
    case True
    let ?L = "delaySamples e"
    let ?m = "samplesToEdge e r s"
    have m: "0 < ?m" "?m \<le> r" "idx s + ?m \<le> ?L"
      using True less.prems(2) by (simp_all add: samplesToEdge_def jmin_def)
    have sepm: "separate_state s ?m"
      by (rule separate_shift [OF less.prems(5), of _ _ 0]) (use m True in simp_all)
    from simd_segment_tail_loop [OF W True less.prems(1-4) sepm] obtain s2 where
      s2: "tail_loop e 0 ?m s = Inr s2" "idx s2 = idx s + ?m" "advanced ?L ?m s s2"
        "simd_segment W e r s = Inr (r - ?m, s2\<lparr>idx := (if idx s2 \<ge> ?L then 0 else idx s2)\<rparr>)"
      by blast
    let ?s2 = "s2\<lparr>idx := (if idx s2 \<ge> ?L then 0 else idx s2)\<rparr>"
    have pre: "0 \<le> idx ?s2" "idx ?s2 < ?L" "?L \<le> int (length (bufferLeft ?s2))"
      "?L \<le> int (length (bufferRight ?s2))"
      using s2(2,3) m less.prems by (auto simp: advanced_def)
    have sep2: "separate_state ?s2 (max 0 (r - ?m))"
      by (rule separate_shift [OF less.prems(5), of _ _ ?m])
        (use s2(3) m True in \<open>simp_all add: advanced_def\<close>)
    have dec: "nat (r - ?m) < nat r" using m True by linarith
    have simd: "simd_while W e r s
        = Some (map_sum id (shift (max 0 (r - ?m))) (scalar_loop e 0 (r - ?m) ?s2))"
      using less.hyps [OF dec pre sep2] True s2(4) by (subst simd_while.simps) simp
    have first: "scalar_loop e 0 ?m s = Inr (shift (- ?m) ?s2)"
      using scalar_loop_tail_loop [of 0 ?m s e] m s2(1) by simp
    have "scalar_loop e 0 r s = scalar_loop e ?m r (shift (- ?m) ?s2)"
      using scalar_loop_split [of 0 ?m r e s] m first by simp
    also have "\<dots> = map_sum id (shift (- ?m)) (scalar_loop e 0 (r - ?m) ?s2)"
      using scalar_loop_shift [of e ?m r "- ?m" ?s2] by simp
    finally have scalar: "scalar_loop e 0 r s
        = map_sum id (shift (- ?m)) (scalar_loop e 0 (r - ?m) ?s2)" .
    have mx: "max 0 r - ?m = max 0 (r - ?m)" using m True by simp
    show ?thesis
      unfolding simd scalar
      by (cases "scalar_loop e 0 (r - ?m) ?s2") (simp_all add: mx)
  qed
qed

text \<open>
  With separate arrays, and the cursor inside the loop on entry, the SIMD path
  returns exactly what the scalar path returns: the same sample memory, delay
  lines and cursor, for every vector width, block length and delay length.
\<close>

lemma simd_equals_scalar:
  assumes "0 < W" and "0 \<le> delayIndex e" and "delayIndex e < delaySamples e"
    and "delaySamples e \<le> int (length (delayLineLeft e))"
    and "delaySamples e \<le> int (length (delayLineRight e))"
    and "separate inL inR outL outR numSamples"
  shows "processBlockSIMD W e h inL inR outL outR numSamples
     = Some (processBlockScalar e h inL inR outL outR numSamples)"
proof (cases "prepared e")
  case False
  then show ?thesis by (simp add: processBlockSIMD_def processBlockScalar_def)
next
  case True
  let ?s0 = "enter e h inL inR outL outR"
  have sep: "separate_state ?s0 (max 0 numSamples)"
    using assms(6) by (simp add: separate_state_def separate_def enter_def)
  have "simd_while W e numSamples ?s0
      = Some (map_sum id (shift (max 0 numSamples)) (scalar_loop e 0 numSamples ?s0))"
    using assms(2-5) by (intro simd_while_scalar_loop [OF assms(1) _ _ _ _ sep]) (simp_all add: enter_def)
  moreover have "\<And>k s. leave e (shift k s) = leave e s" by (simp add: leave_def shift_def)
  ultimately show ?thesis
    using True
    by (cases "scalar_loop e 0 numSamples ?s0") (simp_all add: processBlockSIMD_def processBlockScalar_def)
qed

section \<open>The scalar path against the recurrence, on separate arrays\<close>

lemma samples_at_Suc: "samples_at h p (Suc n) = h p # samples_at h (p + 1) n"
  using fromRawArray_Suc [of n h p] by (simp add: samples_at_def fromRawArray_def)

lemma samples_at_cong:
  "(\<And>j. j < n \<Longrightarrow> h' (p + int j) = h (p + int j)) \<Longrightarrow> samples_at h' p n = samples_at h p n"
  by (simp add: samples_at_def)

lemma stereo_at_Suc:
  "stereo_at h pL pR (Suc n) = (h pL, h pR) # stereo_at h (pL + 1) (pR + 1) n"
  by (simp add: stereo_at_def samples_at_Suc)

lemma process_sample_separate:
  assumes i0: "0 \<le> idx s" and iL: "idx s < int (length (bufferLeft s))"
    and iR: "idx s < int (length (bufferRight s))" and sep: "separate_state s 1"
  shows "process_sample e 0 s =
     Inr (s\<lparr>heap := (heap s)(outputLeft s := fst (recurrence_output e (heap s (inputLeft s), heap s (inputRight s)) (line_of s)),
                           outputRight s := snd (recurrence_output e (heap s (inputLeft s), heap s (inputRight s)) (line_of s))),
            bufferLeft := fst (recurrence_update e (heap s (inputLeft s), heap s (inputRight s)) (line_of s)),
            bufferRight := fst (snd (recurrence_update e (heap s (inputLeft s), heap s (inputRight s)) (line_of s)))\<rparr>)"
proof -
  note c = separate_cells [OF sep [unfolded separate_state_def], of 0 0]
  show ?thesis
    using i0 iL iR c
    by (simp add: process_sample_def buf_read_def Let_def line_of_def clamp_def jlimit_unit_eq)
qed

lemma scalar_loop_from_one:
  "scalar_loop e 1 (1 + n) s = map_sum id (shift (- 1)) (scalar_loop e 0 n (shift 1 s))"
proof -
  have "scalar_loop e 0 n (shift 1 s) = map_sum id (shift 1) (scalar_loop e 1 (1 + n) s)"
    using scalar_loop_shift [of e 0 n 1 s] by (simp add: add.commute)
  then show ?thesis by (cases "scalar_loop e 1 (1 + n) s") simp_all
qed

lemma scalar_loop_recurrence:
  "0 \<le> idx s \<Longrightarrow> idx s < int (length (bufferLeft s)) \<Longrightarrow>
     length (bufferRight s) = length (bufferLeft s) \<Longrightarrow>
     delaySamples e \<le> int (length (bufferLeft s)) \<Longrightarrow>
     separate_state s (int n) \<Longrightarrow>
     \<exists>s'. scalar_loop e 0 (int n) s = Inr s'
        \<and> line_of s' = recurrence_final e
              (stereo_at (heap s) (inputLeft s) (inputRight s) n) (line_of s)
        \<and> stereo_at (heap s') (outputLeft s) (outputRight s) n
              = recurrence_outputs e
                  (stereo_at (heap s) (inputLeft s) (inputRight s) n) (line_of s)
        \<and> (\<forall>a. \<not> (outputLeft s \<le> a \<and> a < outputLeft s + int n)
               \<and> \<not> (outputRight s \<le> a \<and> a < outputRight s + int n) \<longrightarrow> heap s' a = heap s a)
        \<and> length (bufferLeft s') = length (bufferLeft s)
        \<and> length (bufferRight s') = length (bufferRight s)"
proof (induction n arbitrary: s)
  case 0
  show ?case by (simp add: scalar_loop_done stereo_at_def samples_at_def)
next
  case (Suc n)
  let ?x = "(heap s (inputLeft s), heap s (inputRight s))"
  let ?out = "recurrence_output e ?x (line_of s)"
  let ?upd = "recurrence_update e ?x (line_of s)"
  let ?s1 = "s\<lparr>heap := (heap s)(outputLeft s := fst ?out, outputRight s := snd ?out),
               bufferLeft := fst ?upd, bufferRight := fst (snd ?upd)\<rparr>"
  let ?w = "?s1\<lparr>idx := (if idx ?s1 + 1 \<ge> delaySamples e then 0 else idx ?s1 + 1)\<rparr>"
  let ?t = "shift 1 ?w"
  note c = separate_cells [OF Suc.prems(5) [unfolded separate_state_def]]
  have sep1: "separate_state s 1"
    by (rule separate_shift [OF Suc.prems(5), of _ _ 0]) simp_all
  have iR: "idx s < int (length (bufferRight s))" using Suc.prems(2,3) by simp
  have ps: "process_sample e 0 s = Inr ?s1"
    by (rule process_sample_separate [OF Suc.prems(1,2) iR sep1])
  have first: "scalar_loop e 0 (int (Suc n)) s
      = map_sum id (shift (- 1)) (scalar_loop e 0 (int n) ?t)"
    using scalar_loop_from_one [of e "int n" ?w] by (simp add: scalar_loop_step ps)
  have line_w: "line_of ?t = ?upd"
    by (cases ?upd) (simp add: line_of_def shift_def)
  have lens: "length (bufferLeft ?t) = length (bufferLeft s)"
    "length (bufferRight ?t) = length (bufferRight s)"
    by (simp_all add: line_of_def shift_def)
  have pre: "0 \<le> idx ?t" "idx ?t < int (length (bufferLeft ?t))"
    "length (bufferRight ?t) = length (bufferLeft ?t)"
    "delaySamples e \<le> int (length (bufferLeft ?t))"
    using Suc.prems by (auto simp: line_of_def shift_def)
  have sept: "separate_state ?t (int n)"
    by (rule separate_shift [OF Suc.prems(5), of _ _ 1]) (simp_all add: shift_def)
  from Suc.IH [OF pre sept] obtain t' where
    t': "scalar_loop e 0 (int n) ?t = Inr t'"
      "line_of t' = recurrence_final e
          (stereo_at (heap ?t) (inputLeft ?t) (inputRight ?t) n) (line_of ?t)"
      "stereo_at (heap t') (outputLeft ?t) (outputRight ?t) n
          = recurrence_outputs e
              (stereo_at (heap ?t) (inputLeft ?t) (inputRight ?t) n) (line_of ?t)"
      "\<forall>a. \<not> (outputLeft ?t \<le> a \<and> a < outputLeft ?t + int n)
           \<and> \<not> (outputRight ?t \<le> a \<and> a < outputRight ?t + int n) \<longrightarrow> heap t' a = heap ?t a"
      "length (bufferLeft t') = length (bufferLeft ?t)"
      "length (bufferRight t') = length (bufferRight ?t)"
    by blast
  have ptr: "inputLeft ?t = inputLeft s + 1" "inputRight ?t = inputRight s + 1"
    "outputLeft ?t = outputLeft s + 1" "outputRight ?t = outputRight s + 1"
    by (simp_all add: shift_def)
  have ht: "heap ?t = (heap s)(outputLeft s := fst ?out, outputRight s := snd ?out)"
    by simp
  have inL: "samples_at (heap ?t) (inputLeft s + 1) n = samples_at (heap s) (inputLeft s + 1) n"
  proof (rule samples_at_cong)
    fix j assume "j < n"
    then show "heap ?t (inputLeft s + 1 + int j) = heap s (inputLeft s + 1 + int j)"
      unfolding ht using c(1) [of 0 "1 + int j"] c(3) [of 0 "1 + int j"] by (simp add: add.assoc)
  qed
  have inR: "samples_at (heap ?t) (inputRight s + 1) n = samples_at (heap s) (inputRight s + 1) n"
  proof (rule samples_at_cong)
    fix j assume "j < n"
    then show "heap ?t (inputRight s + 1 + int j) = heap s (inputRight s + 1 + int j)"
      unfolding ht using c(2) [of 0 "1 + int j"] c(4) [of 0 "1 + int j"] by (simp add: add.assoc)
  qed
  have ins: "stereo_at (heap ?t) (inputLeft ?t) (inputRight ?t) n
      = stereo_at (heap s) (inputLeft s + 1) (inputRight s + 1) n"
    unfolding ptr stereo_at_def inL inR ..
  let ?s' = "shift (- 1) t'"
  have res: "scalar_loop e 0 (int (Suc n)) s = Inr ?s'"
    using first t'(1) by simp
  have outside: "\<not> (outputLeft s + 1 \<le> outputLeft s \<and> outputLeft s < outputLeft s + 1 + int n)"
    "\<not> (outputRight s + 1 \<le> outputRight s \<and> outputRight s < outputRight s + 1 + int n)"
    "\<not> (outputRight s + 1 \<le> outputLeft s \<and> outputLeft s < outputRight s + 1 + int n)"
    "\<not> (outputLeft s + 1 \<le> outputRight s \<and> outputRight s < outputLeft s + 1 + int n)"
    using Suc.prems(5) unfolding separate_state_def separate_def by linarith+
  have hL: "heap t' (outputLeft s) = fst ?out"
    using t'(4) [unfolded ptr, rule_format, of "outputLeft s"] outside c(5) [of 0 0]
    by (simp add: ht)
  have hR: "heap t' (outputRight s) = snd ?out"
    using t'(4) [unfolded ptr, rule_format, of "outputRight s"] outside
    by (simp add: ht)
  have lo: "line_of ?s' = line_of t'" by (simp add: line_of_def)
  have hs': "heap ?s' = heap t'" by simp
  have final: "line_of ?s' = recurrence_final e
      (stereo_at (heap s) (inputLeft s) (inputRight s) (Suc n)) (line_of s)"
    unfolding lo stereo_at_Suc recurrence_final.simps
    using t'(2) [unfolded ins line_w] .
  have "stereo_at (heap t') (outputLeft s) (outputRight s) (Suc n)
      = (fst ?out, snd ?out) # recurrence_outputs e
          (stereo_at (heap s) (inputLeft s + 1) (inputRight s + 1) n) ?upd"
    unfolding stereo_at_Suc hL hR
    using t'(3) [unfolded ins line_w] by (simp only: ptr)
  then have outs: "stereo_at (heap ?s') (outputLeft s) (outputRight s) (Suc n)
      = recurrence_outputs e
          (stereo_at (heap s) (inputLeft s) (inputRight s) (Suc n)) (line_of s)"
    unfolding hs' stereo_at_Suc [of "heap s"] recurrence_outputs.simps by simp
  have frame: "\<forall>a. \<not> (outputLeft s \<le> a \<and> a < outputLeft s + int (Suc n))
       \<and> \<not> (outputRight s \<le> a \<and> a < outputRight s + int (Suc n)) \<longrightarrow> heap ?s' a = heap s a"
  proof (intro allI impI)
    fix a
    assume a: "\<not> (outputLeft s \<le> a \<and> a < outputLeft s + int (Suc n))
       \<and> \<not> (outputRight s \<le> a \<and> a < outputRight s + int (Suc n))"
    then have "heap t' a = heap ?t a"
      using t'(4) [unfolded ptr, rule_format, of a] by auto
    moreover have "a \<noteq> outputLeft s" "a \<noteq> outputRight s" using a by auto
    ultimately show "heap ?s' a = heap s a" unfolding hs' by (simp add: ht)
  qed
  have lens': "length (bufferLeft ?s') = length (bufferLeft s)"
    "length (bufferRight ?s') = length (bufferRight s)"
    using t'(5,6) lens by simp_all
  show ?case
    using res final outs frame lens' by blast
qed

text \<open>
  The scalar path on separate arrays computes the recurrence of the
  specification: for a prepared engine whose cursor is inside its vectors and
  whose loop length does not exceed them, the outputs, the final delay lines and
  the final cursor are those of the recurrence run over the input block, and
  nothing outside the two output blocks is written.
\<close>

lemma scalar_block_recurrence:
  assumes "prepared e" and "0 \<le> delayIndex e"
    and "delayIndex e < int (length (delayLineLeft e))"
    and "length (delayLineRight e) = length (delayLineLeft e)"
    and "delaySamples e \<le> int (length (delayLineLeft e))"
    and "separate inL inR outL outR (int n)"
  shows "\<exists>h' e'. processBlockScalar e h inL inR outL outR (int n) = Inr (h', e')
     \<and> (delayLineLeft e', delayLineRight e', delayIndex e')
         = recurrence_final e (stereo_at h inL inR n)
             (delayLineLeft e, delayLineRight e, delayIndex e)
     \<and> stereo_at h' outL outR n
         = recurrence_outputs e (stereo_at h inL inR n)
             (delayLineLeft e, delayLineRight e, delayIndex e)
     \<and> (\<forall>a. \<not> (outL \<le> a \<and> a < outL + int n) \<and> \<not> (outR \<le> a \<and> a < outR + int n)
            \<longrightarrow> h' a = h a)
     \<and> e' = e\<lparr>delayLineLeft := delayLineLeft e', delayLineRight := delayLineRight e',
               delayIndex := delayIndex e'\<rparr>"
proof -
  let ?s0 = "enter e h inL inR outL outR"
  have pre: "0 \<le> idx ?s0" "idx ?s0 < int (length (bufferLeft ?s0))"
    "length (bufferRight ?s0) = length (bufferLeft ?s0)"
    "delaySamples e \<le> int (length (bufferLeft ?s0))"
    "separate_state ?s0 (int n)"
    using assms(2-6) by (simp_all add: enter_def separate_state_def)
  from scalar_loop_recurrence [OF pre] obtain s' where
    s': "scalar_loop e 0 (int n) ?s0 = Inr s'"
      "line_of s' = recurrence_final e
          (stereo_at (heap ?s0) (inputLeft ?s0) (inputRight ?s0) n) (line_of ?s0)"
      "stereo_at (heap s') (outputLeft ?s0) (outputRight ?s0) n
          = recurrence_outputs e
              (stereo_at (heap ?s0) (inputLeft ?s0) (inputRight ?s0) n) (line_of ?s0)"
      "\<forall>a. \<not> (outputLeft ?s0 \<le> a \<and> a < outputLeft ?s0 + int n)
           \<and> \<not> (outputRight ?s0 \<le> a \<and> a < outputRight ?s0 + int n)
           \<longrightarrow> heap s' a = heap ?s0 a"
    by blast
  have f: "heap ?s0 = h" "inputLeft ?s0 = inL" "inputRight ?s0 = inR"
    "outputLeft ?s0 = outL" "outputRight ?s0 = outR"
    "line_of ?s0 = (delayLineLeft e, delayLineRight e, delayIndex e)"
    by (simp_all add: enter_def line_of_def)
  show ?thesis
    apply (rule exI [of _ "heap s'"])
    apply (rule exI [of _ "snd (leave e s')"])
    using assms(1) s'(1) s'(2-4) [unfolded f]
    by (simp add: processBlockScalar_def leave_def line_of_def)
qed

lemma recurrence_final_append:
  "recurrence_final e (xs @ ys) st = recurrence_final e ys (recurrence_final e xs st)"
  by (induction xs arbitrary: st) simp_all

lemma recurrence_outputs_nth:
  "j < length xs \<Longrightarrow>
     recurrence_outputs e xs st ! j
       = recurrence_output e (xs ! j) (recurrence_final e (take j xs) st)"
proof (induction xs arbitrary: st j)
  case Nil
  then show ?case by simp
next
  case (Cons x xs)
  show ?case
  proof (cases j)
    case 0
    then show ?thesis by simp
  next
    case (Suc j')
    then show ?thesis using Cons.prems Cons.IH [of j'] by simp
  qed
qed

lemma length_recurrence_outputs [simp]: "length (recurrence_outputs e xs st) = length xs"
  by (induction xs arbitrary: st) simp_all

lemma length_stereo_at [simp]: "length (stereo_at h pL pR n) = n"
  by (simp add: stereo_at_def samples_at_def)

lemma stereo_at_nth: "j < n \<Longrightarrow> stereo_at h pL pR n ! j = (h (pL + int j), h (pR + int j))"
  by (simp add: stereo_at_def samples_at_def)

lemma clamp_inside: "lo \<le> x \<Longrightarrow> x \<le> hi \<Longrightarrow> clamp x lo hi = x"
  by (simp add: clamp_def)

lemma echo_amplitude_bounds:
  assumes "0 < a" "a \<le> 1" "0 \<le> f" "f \<le> (1::real)"
  shows "- 1 \<le> a * f ^ q" "a * f ^ q \<le> 1"
proof -
  have "0 \<le> f ^ q" "f ^ q \<le> 1" using assms(3,4) by (simp_all add: power_le_one)
  then have "0 \<le> a * f ^ q" "a * f ^ q \<le> 1 * 1"
    using assms(1,2) by (simp, intro mult_mono) simp_all
  then show "- 1 \<le> a * f ^ q" "a * f ^ q \<le> 1" by simp_all
qed

text \<open>
  The response of the recurrence to an impulse of amplitude \<open>a\<close> followed by
  silence, from zeroed delay lines: after \<open>j + 1\<close> samples the only non-zero
  cell is cell 0, holding \<open>a * feedback ^ (j div D)\<close>.
\<close>

lemma impulse_state:
  fixes d :: nat
  assumes d: "delaySamples e = int d" "1 \<le> d" "d \<le> M"
    and f: "0 \<le> feedback e" "feedback e \<le> 1"
    and a: "0 < a" "a \<le> 1"
    and x0: "fst (xs ! 0) = a"
    and xj: "\<And>j. 0 < j \<Longrightarrow> j < length xs \<Longrightarrow> fst (xs ! j) = 0"
  shows "Suc j \<le> length xs \<Longrightarrow>
     fst (recurrence_final e (take (Suc j) xs) (replicate M 0, br, 0))
         = (replicate M 0)[0 := a * feedback e ^ (j div d)]
     \<and> snd (snd (recurrence_final e (take (Suc j) xs) (replicate M 0, br, 0)))
         = int (Suc j mod d)"
proof (induction j)
  case 0
  then obtain x xs' where xs: "xs = x # xs'" by (cases xs) simp_all
  obtain xl xr where x: "x = (xl, xr)" by (cases x)
  have xl: "xl = a" using x0 xs x by simp
  have M: "0 < M" using d by simp
  have "1 mod d = (if d = 1 then 0 else 1)" by simp
  then show ?case
    using d M a by (auto simp: xs x xl clamp_inside)
next
  case (Suc j)
  let ?st = "recurrence_final e (take (Suc j) xs) (replicate M 0, br, 0)"
  have len: "Suc j < length xs" using Suc.prems by simp
  from Suc.IH len have bl: "fst ?st = (replicate M 0)[0 := a * feedback e ^ (j div d)]"
    and ix: "snd (snd ?st) = int (Suc j mod d)"
    by simp_all
  obtain b r where st: "?st = ((replicate M 0)[0 := a * feedback e ^ (j div d)], r, int (Suc j mod d))"
    using bl ix by (cases ?st) simp
  obtain xl xr where x: "xs ! Suc j = (xl, xr)" by (cases "xs ! Suc j")
  have xl: "xl = 0" using xj [of "Suc j"] len x by simp
  have tk: "take (Suc (Suc j)) xs = take (Suc j) xs @ [xs ! Suc j]"
    using len by (simp add: take_Suc_conv_app_nth)
  let ?p = "Suc j mod d"
  have pd: "?p < d" using d by simp
  have next_idx: "(if int ?p + 1 \<ge> int d then 0 else int ?p + 1) = int (Suc (Suc j) mod d)"
    using pd by (auto simp: mod_Suc [of "Suc j" d])
  have p: "?p < M" using pd d(3) by linarith
  let ?bl = "(replicate M 0)[0 := a * feedback e ^ (j div d)]"
  have fin: "recurrence_final e (take (Suc (Suc j)) xs) (replicate M 0, br, 0)
      = recurrence_update e (xs ! Suc j) ?st"
    by (simp add: tk recurrence_final_append)
  have "snd (snd (recurrence_update e (xs ! Suc j) ?st))
      = (if int ?p + 1 \<ge> int d then 0 else int ?p + 1)"
    by (simp add: st x d(1))
  then have idx': "snd (snd (recurrence_update e (xs ! Suc j) ?st)) = int (Suc (Suc j) mod d)"
    by (simp only: next_idx)
  have upd: "fst (recurrence_update e (xs ! Suc j) ?st)
      = ?bl[?p := clamp (feedback e * ?bl ! ?p) (- 1) 1]"
    by (simp add: st x xl)
  have "?bl[?p := clamp (feedback e * ?bl ! ?p) (- 1) 1]
      = (replicate M 0)[0 := a * feedback e ^ (Suc j div d)]"
  proof (cases "?p = 0")
    case True
    have q: "Suc j div d = Suc (j div d)" using True by (simp add: div_Suc)
    have cell: "?bl ! 0 = a * feedback e ^ (j div d)" using p by simp
    have cl: "clamp (feedback e * (a * feedback e ^ (j div d))) (- 1) 1
        = a * feedback e ^ Suc (j div d)"
      using echo_amplitude_bounds [OF a f, of "Suc (j div d)"]
      by (simp add: clamp_inside mult.assoc mult.left_commute)
    show ?thesis
      unfolding True cell cl q by simp
  next
    case False
    have q: "Suc j div d = j div d" using False by (simp add: div_Suc)
    have cell: "?bl ! ?p = 0" using False p by simp
    have "?bl[?p := 0] = ?bl" using cell by (metis list_update_id)
    then show ?thesis
      unfolding cell q by (simp add: clamp_def)
  qed
  then show ?case
    unfolding fin using upd idx' by simp
qed

lemma echo_index:
  fixes d :: nat
  assumes "1 \<le> k" "1 \<le> d"
  shows "(k * d - 1) div d = k - 1" "(k * d) mod d = 0" "\<exists>j. k * d = Suc j"
proof -
  obtain k' where k: "k = Suc k'" using assms(1) by (cases k) simp_all
  obtain d' where d: "d = Suc d'" using assms(2) by (cases d) simp_all
  have "k * d - 1 = d' + k' * d" by (simp add: k d)
  moreover have "(d' + k' * d) div d = k' + d' div d"
    by (rule div_mult_self1) (simp add: d)
  moreover have "d' div d = 0" by (simp add: d)
  ultimately show "(k * d - 1) div d = k - 1" by (simp add: k)
  show "(k * d) mod d = 0" by simp
  show "\<exists>j. k * d = Suc j" by (simp add: k d)
qed

text \<open>
  With separate arrays the echoes of an impulse decay as the comment in the
  source says: the output at sample \<open>k * D\<close> is \<open>wet * a * feedback ^ (k - 1)\<close>
  (the input there is silence, so this is the wet component), which for a
  feedback below 1 falls under every positive bound.
\<close>

lemma impulse_echoes_separate:
  fixes d :: nat
  assumes p: "prepared e"
    and bufs: "delayLineLeft e = replicate M 0" "length (delayLineRight e) = M"
      "delayIndex e = 0"
    and d: "delaySamples e = int d" "1 \<le> d" "d \<le> M"
    and f: "0 \<le> feedback e" "feedback e \<le> 1"
    and a: "0 < a" "a \<le> 1"
    and h0: "h inL = a" and hj: "\<And>j. 0 < j \<Longrightarrow> j < n \<Longrightarrow> h (inL + int j) = 0"
    and sep: "separate inL inR outL outR (int n)"
    and k: "1 \<le> k" "k * d < n"
  shows "\<exists>h' e'. processBlockScalar e h inL inR outL outR (int n) = Inr (h', e')
           \<and> h' (outL + int (k * d)) = wetMix e * (a * feedback e ^ (k - 1))"
proof -
  let ?ins = "stereo_at h inL inR n"
  let ?init = "(delayLineLeft e, delayLineRight e, delayIndex e)"
  have pre: "0 \<le> delayIndex e" "delayIndex e < int (length (delayLineLeft e))"
    "length (delayLineRight e) = length (delayLineLeft e)"
    "delaySamples e \<le> int (length (delayLineLeft e))"
    using bufs d by simp_all
  from scalar_block_recurrence [OF p pre sep, of h] obtain h' e' where
    run: "processBlockScalar e h inL inR outL outR (int n) = Inr (h', e')"
    and outs: "stereo_at h' outL outR n = recurrence_outputs e ?ins ?init"
    by blast
  note q = echo_index(1) [OF k(1) d(2)] and m = echo_index(2) [OF k(1) d(2)]
  from echo_index(3) [OF k(1) d(2)] obtain j where j: "k * d = Suc j" ..
  have jn: "Suc j < n" using k(2) j by simp
  have x0: "fst (?ins ! 0) = a" using jn h0 by (simp add: stereo_at_nth)
  have xj: "\<And>i. 0 < i \<Longrightarrow> i < length ?ins \<Longrightarrow> fst (?ins ! i) = 0"
    using hj by (simp add: stereo_at_nth)
  have len: "Suc j \<le> length ?ins" using jn by simp
  let ?st = "recurrence_final e (take (Suc j) ?ins) (replicate M 0, delayLineRight e, 0)"
  from impulse_state [OF d f a x0 xj len, of "delayLineRight e"]
  have bl: "fst ?st = (replicate M 0)[0 := a * feedback e ^ (j div d)]"
    and ix: "snd (snd ?st) = int (Suc j mod d)"
    by simp_all
  have jq: "j div d = k - 1" using q j by simp
  have i0: "Suc j mod d = 0" using m j by simp
  obtain r where st: "?st = ((replicate M 0)[0 := a * feedback e ^ (k - 1)], r, 0)"
    using bl ix jq i0 by (cases ?st) simp
  have M: "0 < M" using d by simp
  have "(h' (outL + int (Suc j)), h' (outR + int (Suc j)))
      = recurrence_outputs e ?ins ?init ! Suc j"
    using stereo_at_nth [OF jn, of h' outL outR] by (simp only: outs)
  also have "\<dots> = recurrence_output e (?ins ! Suc j) ?st"
    using jn by (simp add: recurrence_outputs_nth bufs)
  also have "?ins ! Suc j = (0, h (inR + int (Suc j)))"
    using jn hj [of "Suc j"] by (simp add: stereo_at_nth)
  finally have "h' (outL + int (Suc j)) = wetMix e * (a * feedback e ^ (k - 1))"
    using M by (simp add: st)
  then show ?thesis using run j by auto
qed

lemma echoes_fall_below:
  fixes f :: real
  assumes "0 \<le> f" "f < 1" "0 \<le> c" "0 < eps"
  shows "\<exists>K. \<forall>k \<ge> K. c * f ^ (k - 1) < eps"
proof (cases "c = 0")
  case True
  then show ?thesis using assms(4) by simp
next
  case False
  then have c: "0 < c" using assms(3) by simp
  then have "0 < eps / c" using assms(4) by simp
  from real_arch_pow_inv [OF this assms(2)] obtain n where n: "f ^ n < eps / c" by blast
  have "\<forall>k \<ge> Suc n. c * f ^ (k - 1) < eps"
  proof (intro allI impI)
    fix k assume "Suc n \<le> k"
    then have "n \<le> k - 1" by simp
    then have "f ^ (k - 1) \<le> f ^ n" using assms(1,2) by (intro power_decreasing) simp_all
    then have "f ^ (k - 1) < eps / c" using n by simp
    then show "c * f ^ (k - 1) < eps" using c by (simp add: pos_less_divide_eq mult.commute)
  qed
  then show ?thesis by blast
qed

section \<open>The samples the SIMD path writes\<close>

text \<open>
  Each pass of the \<^verbatim>\<open>while\<close> loop writes \<open>samplesToEdge\<close> samples at each output
  pointer: sample \<open>k\<close> is the mix of input sample \<open>k\<close> and of cell \<open>idx + k\<close> of the
  delay line, both as they were when the pass began. This holds when the block is
  processed in place and when the arrays are separate; when the output arrays
  overlap each other, a later store overwrites an earlier one.
\<close>

lemma layout_ok_mono: "layout_ok s n \<Longrightarrow> m \<le> n \<Longrightarrow> layout_ok s m"
  by (auto simp: layout_ok_def in_place_or_separate_def)

lemma layout_ok_advanced:
  "layout_ok s (m + n) \<Longrightarrow> 0 \<le> m \<Longrightarrow> advanced L m s s1 \<Longrightarrow> layout_ok s1 n"
  by (auto simp: layout_ok_def in_place_or_separate_def advanced_def)

lemma layout_ok_idx [simp]: "layout_ok (s\<lparr>idx := x\<rparr>) n = layout_ok s n"
  by (simp add: layout_ok_def)

lemma mixed_idx [simp]:
  "mixed e c m (s\<lparr>idx := x\<rparr>) s' = mixed e c m s s'"
  "mixed e c m s (s'\<lparr>idx := x\<rparr>) = mixed e c m s s'"
  by (simp_all add: mixed_def)

lemma mixed_zero: "mixed e c 0 s s'"
  by (simp add: mixed_def)

lemma drop_eq_nth:
  assumes "drop n xs = drop n ys" and "n \<le> i" and "i < length xs"
  shows "xs ! i = ys ! i"
proof -
  have "length xs - n = length ys - n" using arg_cong [OF assms(1), of length] by simp
  then have "i < length ys" using assms(2,3) by linarith
  then have "drop n xs ! (i - n) = xs ! i" "drop n ys ! (i - n) = ys ! i"
    using assms(2,3) by simp_all
  then show ?thesis using assms(1) by simp
qed

text \<open>Samples written one after the other.\<close>

lemma mixed_trans:
  assumes lay: "layout_ok s (m1 + m2)" and m: "0 \<le> m1" "0 \<le> m2" and c: "0 \<le> c"
    and lenL: "c + m1 + m2 \<le> int (length (bufferLeft s))"
    and lenR: "c + m1 + m2 \<le> int (length (bufferRight s))"
    and a1: "advanced (c + m1) m1 s s1" and x1: "mixed e c m1 s s1"
    and a2: "advanced L m2 s1 s2" and x2: "mixed e (c + m1) m2 s1 s2"
  shows "mixed e c (m1 + m2) s s2"
  unfolding mixed_def
proof (intro allI impI)
  fix k assume k: "0 \<le> k \<and> k < m1 + m2"
  have lay': "outputLeft s = inputLeft s \<or> m1 + m2 \<le> \<bar>outputLeft s - inputLeft s\<bar>"
    "outputRight s = inputRight s \<or> m1 + m2 \<le> \<bar>outputRight s - inputRight s\<bar>"
    "m1 + m2 \<le> \<bar>outputLeft s - inputRight s\<bar>" "m1 + m2 \<le> \<bar>outputRight s - inputLeft s\<bar>"
    "m1 + m2 \<le> \<bar>outputLeft s - outputRight s\<bar>"
    using lay by (simp_all add: layout_ok_def in_place_or_separate_def)
  have p1: "inputLeft s1 = inputLeft s + m1" "inputRight s1 = inputRight s + m1"
    "outputLeft s1 = outputLeft s + m1" "outputRight s1 = outputRight s + m1"
    and f1: "\<And>a. \<not> (outputLeft s \<le> a \<and> a < outputLeft s + m1)
            \<Longrightarrow> \<not> (outputRight s \<le> a \<and> a < outputRight s + m1) \<Longrightarrow> heap s1 a = heap s a"
    and d1: "drop (nat (c + m1)) (bufferLeft s1) = drop (nat (c + m1)) (bufferLeft s)"
      "drop (nat (c + m1)) (bufferRight s1) = drop (nat (c + m1)) (bufferRight s)"
    and l1: "length (bufferLeft s1) = length (bufferLeft s)"
      "length (bufferRight s1) = length (bufferRight s)"
    using a1 by (simp_all add: advanced_def)
  have f2: "\<And>a. \<not> (outputLeft s1 \<le> a \<and> a < outputLeft s1 + m2)
            \<Longrightarrow> \<not> (outputRight s1 \<le> a \<and> a < outputRight s1 + m2) \<Longrightarrow> heap s2 a = heap s1 a"
    using a2 by (simp add: advanced_def)
  show "heap s2 (outputLeft s + k)
          = heap s (inputLeft s + k) * dryMix e + bufferLeft s ! nat (c + k) * wetMix e
      \<and> heap s2 (outputRight s + k)
          = heap s (inputRight s + k) * dryMix e + bufferRight s ! nat (c + k) * wetMix e"
  proof (cases "k < m1")
    case True
    have "heap s2 (outputLeft s + k) = heap s1 (outputLeft s + k)"
      "heap s2 (outputRight s + k) = heap s1 (outputRight s + k)"
      using True k lay'(5) by (auto intro!: f2 simp: p1)
    then show ?thesis using x1 True k by (simp add: mixed_def)
  next
    case False
    then have k': "0 \<le> k - m1 \<and> k - m1 < m2" using k by linarith
    have o: "outputLeft s1 + (k - m1) = outputLeft s + k"
      "outputRight s1 + (k - m1) = outputRight s + k"
      "inputLeft s1 + (k - m1) = inputLeft s + k"
      "inputRight s1 + (k - m1) = inputRight s + k" "c + m1 + (k - m1) = c + k"
      by (simp_all add: p1)
    have hL: "heap s1 (inputLeft s + k) = heap s (inputLeft s + k)"
      using False k lay'(1,4) by (intro f1) (auto simp: abs_if split: if_splits)
    have hR: "heap s1 (inputRight s + k) = heap s (inputRight s + k)"
      using False k lay'(2,3) by (intro f1) (auto simp: abs_if split: if_splits)
    have n: "nat (c + m1) \<le> nat (c + k)" using False c m by linarith
    have bL: "bufferLeft s1 ! nat (c + k) = bufferLeft s ! nat (c + k)"
      using k lenL c l1 by (intro drop_eq_nth [OF d1(1) n]) linarith
    have bR: "bufferRight s1 ! nat (c + k) = bufferRight s ! nat (c + k)"
      using k lenR c l1 by (intro drop_eq_nth [OF d1(2) n]) linarith
    from x2 k' show ?thesis
      unfolding mixed_def o hL hR bL bR
      using o hL hR bL bR by (metis)
  qed
qed


lemma process_sample_mixed:
  assumes "layout_ok s 1" and "process_sample e 0 s = Inr s1"
  shows "mixed e (idx s) 1 s s1"
proof -
  have ne: "outputLeft s \<noteq> outputRight s" "inputRight s \<noteq> outputLeft s"
    using assms(1) by (auto simp: layout_ok_def in_place_or_separate_def)
  have k: "\<And>k::int. 0 \<le> k \<and> k < 1 \<longleftrightarrow> k = 0" by auto
  show ?thesis
    using assms(2) ne
    by (auto simp: mixed_def k process_sample_def buf_read_def Let_def split: sum.splits if_splits)
qed

lemma copyToRawArray_inside:
  "0 \<le> k \<Longrightarrow> k < int (length v) \<Longrightarrow> copyToRawArray v p h (p + k) = v ! nat k"
  by (simp add: copyToRawArray_def)

lemma mix_lane:
  assumes "k < W" and "length d = W"
  shows "simd_add (simd_mul (fromRawArray W h p) (replicate W x)) (simd_mul d (replicate W y)) ! k
     = h (p + int k) * x + d ! k * y"
  using assms by (simp add: simd_add_def simd_mul_def fromRawArray_def)

lemma simd_group_mixed:
  assumes sep: "int W \<le> \<bar>outputLeft s - outputRight s\<bar>"
    and o: "0 \<le> idx s + chunk * int W"
    and inL: "idx s + chunk * int W + int W \<le> int (length (bufferLeft s))"
    and inR: "idx s + chunk * int W + int W \<le> int (length (bufferRight s))"
    and run: "simd_group W e chunk s = Inr s1"
  shows "mixed e (idx s + chunk * int W) (int W) s s1"
proof -
  let ?o = "idx s + chunk * int W"
  let ?dl = "take W (drop (nat ?o) (bufferLeft s))"
  let ?dr = "take W (drop (nat ?o) (bufferRight s))"
  let ?outL = "simd_add (simd_mul (fromRawArray W (heap s) (inputLeft s)) (replicate W (dryMix e)))
                 (simd_mul ?dl (replicate W (wetMix e)))"
  let ?outR = "simd_add (simd_mul (fromRawArray W (heap s) (inputRight s)) (replicate W (dryMix e)))
                 (simd_mul ?dr (replicate W (wetMix e)))"
  have lenL: "length ?dl = W" and lenR: "length ?dr = W"
    using length_buf_load [OF o inL] length_buf_load [OF o inR] by simp_all
  have lo: "length ?outL = W" "length ?outR = W" using lenL lenR by simp_all
  have ld: "buf_load W (bufferLeft s) ?o = Inr ?dl" "buf_load W (bufferRight s) ?o = Inr ?dr"
    using buf_load_ok [OF o inL] buf_load_ok [OF o inR] by simp_all
  have h: "heap s1 = copyToRawArray ?outR (outputRight s) (copyToRawArray ?outL (outputLeft s) (heap s))"
    using run by (auto simp: simd_group_def Let_def ld)
  show ?thesis
    unfolding mixed_def
  proof (intro allI impI)
    fix k :: int assume k: "0 \<le> k \<and> k < int W"
    then have kn: "nat k < W" by linarith
    have ik: "int (nat k) = k" using k by simp
    have out: "\<not> (outputRight s \<le> outputLeft s + k \<and> outputLeft s + k < outputRight s + int (length ?outR))"
      using sep k lo by (auto simp: abs_if split: if_splits)
    have "heap s1 (outputLeft s + k) = ?outL ! nat k"
      unfolding h using k lo by (simp add: copyToRawArray_outside [OF out] copyToRawArray_inside)
    also have "\<dots> = heap s (inputLeft s + k) * dryMix e + ?dl ! nat k * wetMix e"
      using mix_lane [OF kn lenL] ik by simp
    also have "?dl ! nat k = bufferLeft s ! nat (?o + k)"
      using kn o k inL by (simp add: nat_add_distrib)
    finally have L: "heap s1 (outputLeft s + k)
        = heap s (inputLeft s + k) * dryMix e + bufferLeft s ! nat (?o + k) * wetMix e" .
    have "heap s1 (outputRight s + k) = ?outR ! nat k"
      unfolding h using k lo by (simp add: copyToRawArray_inside)
    also have "\<dots> = heap s (inputRight s + k) * dryMix e + ?dr ! nat k * wetMix e"
      using mix_lane [OF kn lenR] ik by simp
    also have "?dr ! nat k = bufferRight s ! nat (?o + k)"
      using kn o k inR by (simp add: nat_add_distrib)
    finally have R: "heap s1 (outputRight s + k)
        = heap s (inputRight s + k) * dryMix e + bufferRight s ! nat (?o + k) * wetMix e" .
    show "heap s1 (outputLeft s + k)
          = heap s (inputLeft s + k) * dryMix e + bufferLeft s ! nat (?o + k) * wetMix e
      \<and> heap s1 (outputRight s + k)
          = heap s (inputRight s + k) * dryMix e + bufferRight s ! nat (?o + k) * wetMix e"
      using L R by simp
  qed
qed


lemma chunk_loop_mixed:
  assumes "0 \<le> chunk" "chunk \<le> k" "0 \<le> idx s"
    "idx s + k * int W \<le> int (length (bufferLeft s))"
    "idx s + k * int W \<le> int (length (bufferRight s))"
    "layout_ok s ((k - chunk) * int W)"
    "chunk_loop W e chunk k s = Inr s'"
  shows "mixed e (idx s + chunk * int W) ((k - chunk) * int W) s s'"
  using assms
proof (induction "nat (k - chunk)" arbitrary: chunk s)
  case 0
  then have "chunk = k" by simp
  then show ?case by (simp add: mixed_zero)
next
  case (Suc j)
  then have lt: "chunk < k" by linarith
  have j: "j = nat (k - (chunk + 1))" using Suc.hyps(2) by linarith
  let ?c = "idx s + chunk * int W"
  let ?m2 = "(k - (chunk + 1)) * int W"
  have m2: "0 \<le> ?m2" using lt by simp
  have sum: "int W + ?m2 = (k - chunk) * int W" by (simp add: algebra_simps)
  have end_eq: "?c + int W + ?m2 = idx s + k * int W" by (simp add: algebra_simps)
  have c0: "0 \<le> chunk * int W" using Suc.prems(1) by simp
  then have o: "0 \<le> ?c" "?c + int W \<le> ?c + int W" using Suc.prems(3) by simp_all
  have lens: "?c + int W \<le> int (length (bufferLeft s))" "?c + int W \<le> int (length (bufferRight s))"
    using Suc.prems(4,5) m2 end_eq by linarith+
  from simd_group_advanced [OF o lens, of e] obtain s1 where
    s1: "simd_group W e chunk s = Inr s1" "idx s1 = idx s" "advanced (?c + int W) (int W) s s1"
    by blast
  have rest: "chunk_loop W e (chunk + 1) k s1 = Inr s'"
    using Suc.prems(7) lt s1(1) by (simp add: chunk_loop_step)
  have len1: "length (bufferLeft s1) = length (bufferLeft s)"
    "length (bufferRight s1) = length (bufferRight s)"
    using s1(3) by (simp_all add: advanced_def)
  have lay: "layout_ok s (int W + ?m2)" using Suc.prems(6) sum by simp
  have lay1: "layout_ok s1 ?m2"
    by (rule layout_ok_advanced [OF lay _ s1(3)]) simp
  have sep: "int W \<le> \<bar>outputLeft s - outputRight s\<bar>"
    using lay m2 by (auto simp: layout_ok_def in_place_or_separate_def)
  have x1: "mixed e ?c (int W) s s1"
    by (rule simd_group_mixed [OF sep o(1) lens s1(1)])
  have pre: "0 \<le> chunk + 1" "chunk + 1 \<le> k" "0 \<le> idx s1"
    "idx s1 + k * int W \<le> int (length (bufferLeft s1))"
    "idx s1 + k * int W \<le> int (length (bufferRight s1))"
    using Suc.prems lt s1(2) len1 by simp_all
  have x2: "mixed e (idx s1 + (chunk + 1) * int W) ?m2 s1 s'"
    by (rule Suc.hyps(1) [OF j pre lay1 rest])
  have c2: "idx s1 + (chunk + 1) * int W = ?c + int W" using s1(2) by (simp add: algebra_simps)
  from chunk_loop_advanced [OF pre(1,2,3) _ pre(4,5), where e = e] obtain s'' where
    a2: "chunk_loop W e (chunk + 1) k s1 = Inr s''" "advanced (idx s1 + k * int W) ?m2 s1 s''"
    by auto
  then have a2': "advanced (idx s1 + k * int W) ?m2 s1 s'" using rest by simp
  have "mixed e ?c (int W + ?m2) s s'"
    using Suc.prems(4,5) x2
    by (intro mixed_trans [OF lay _ m2 o(1) _ _ s1(3) x1 a2']) (simp_all add: end_eq c2)
  then show ?case using sum by simp
qed

lemma tail_loop_mixed:
  assumes "0 \<le> i" "i \<le> t" "0 \<le> idx s"
    "idx s + (t - i) \<le> int (length (bufferLeft s))"
    "idx s + (t - i) \<le> int (length (bufferRight s))"
    "layout_ok s (t - i)"
    "tail_loop e i t s = Inr s'"
  shows "mixed e (idx s) (t - i) s s'"
  using assms
proof (induction "nat (t - i)" arbitrary: i s)
  case 0
  then have "i = t" by simp
  then show ?case by (simp add: mixed_zero)
next
  case (Suc j)
  then have lt: "i < t" by linarith
  have j: "j = nat (t - (i + 1))" using Suc.hyps(2) by linarith
  let ?m2 = "t - (i + 1)"
  have m2: "0 \<le> ?m2" using lt by simp
  have sum: "1 + ?m2 = t - i" by simp
  have i1: "idx s < idx s + 1" by simp
  have lens: "idx s + 1 \<le> int (length (bufferLeft s))" "idx s + 1 \<le> int (length (bufferRight s))"
    using Suc.prems(4,5) lt by linarith+
  from process_sample_advanced [OF Suc.prems(3) i1 lens, of e] obtain s1 where
    s1: "process_sample e 0 s = Inr s1" "idx s1 = idx s"
      "advanced (idx s + 1) 1 s (s1\<lparr>inputLeft := inputLeft s1 + 1, inputRight := inputRight s1 + 1,
              outputLeft := outputLeft s1 + 1, outputRight := outputRight s1 + 1\<rparr>)"
    by blast
  let ?s = "s1\<lparr>inputLeft := inputLeft s1 + 1, inputRight := inputRight s1 + 1,
                outputLeft := outputLeft s1 + 1, outputRight := outputRight s1 + 1,
                idx := idx s1 + 1\<rparr>"
  have adv1: "advanced (idx s + 1) 1 s ?s" using s1(3) by (simp add: advanced_def)
  have rest: "tail_loop e (i + 1) t ?s = Inr s'"
    using Suc.prems(7) lt s1(1) by (simp add: tail_loop_step)
  have len1: "length (bufferLeft ?s) = length (bufferLeft s)"
    "length (bufferRight ?s) = length (bufferRight s)"
    using adv1 by (simp_all add: advanced_def)
  have lay: "layout_ok s (1 + ?m2)" using Suc.prems(6) by simp
  have lay1: "layout_ok ?s ?m2"
    by (rule layout_ok_advanced [OF lay _ adv1]) simp
  have "mixed e (idx s) 1 s s1"
    by (rule process_sample_mixed [OF layout_ok_mono [OF lay] s1(1)]) (use m2 in simp)
  then have x1: "mixed e (idx s) 1 s ?s" by (simp add: mixed_def)
  have pre: "0 \<le> i + 1" "i + 1 \<le> t" "0 \<le> idx ?s"
    "idx ?s + (t - (i + 1)) \<le> int (length (bufferLeft ?s))"
    "idx ?s + (t - (i + 1)) \<le> int (length (bufferRight ?s))"
    using Suc.prems lt s1(2) len1 by simp_all
  have x2: "mixed e (idx ?s) ?m2 ?s s'"
    by (rule Suc.hyps(1) [OF j pre lay1 rest])
  have c2: "idx ?s = idx s + 1" using s1(2) by simp
  from tail_loop_advanced [OF pre(1,2,3) _ pre(4,5), where e = e] obtain s'' where
    a2: "tail_loop e (i + 1) t ?s = Inr s''" "advanced (idx ?s + (t - (i + 1))) ?m2 ?s s''"
    by auto
  then have a2': "advanced (idx ?s + (t - (i + 1))) ?m2 ?s s'" using rest by simp
  have "mixed e (idx s) (1 + ?m2) s s'"
    using Suc.prems(4,5) x2 unfolding c2
    by (intro mixed_trans [OF lay _ m2 Suc.prems(3) _ _ adv1 x1 a2']) simp_all
  then show ?case using sum by simp
qed


lemma simd_segment_written:
  assumes W: "0 < W" and r: "0 < r" and i0: "0 \<le> idx s" and i1: "idx s < delaySamples e"
    and lenL: "delaySamples e \<le> int (length (bufferLeft s))"
    and lenR: "delaySamples e \<le> int (length (bufferRight s))"
    and lay: "layout_ok s (samplesToEdge e r s)"
  shows "\<exists>s'. simd_segment W e r s = Inr (r - samplesToEdge e r s, s')
           \<and> idx s' = (idx s + samplesToEdge e r s) mod delaySamples e
           \<and> advanced (delaySamples e) (samplesToEdge e r s) s s'
           \<and> mixed e (idx s) (samplesToEdge e r s) s s'"
proof -
  let ?L = "delaySamples e"
  let ?m = "samplesToEdge e r s"
  let ?k = "cpp_div ?m (int W)"
  let ?t = "cpp_mod ?m (int W)"
  have m: "0 < ?m" "?m \<le> r" "idx s + ?m \<le> ?L"
    using r i1 by (simp_all add: samplesToEdge_def jmin_def)
  have k: "?k = ?m div int W" and t: "?t = ?m mod int W"
    using m(1) W by (simp_all add: cpp_div_nonneg cpp_mod_nonneg)
  have k0: "0 \<le> ?k" using k m(1) W by (simp add: pos_imp_zdiv_nonneg_iff)
  have t0: "0 \<le> ?t" using t W by simp
  have km: "?k * int W + ?t = ?m" using k t by simp
  have kW0: "0 \<le> ?k * int W" using k0 by simp
  have kL: "idx s + ?k * int W \<le> int (length (bufferLeft s))"
    and kR: "idx s + ?k * int W \<le> int (length (bufferRight s))"
    using km t0 m(3) lenL lenR by linarith+
  from chunk_loop_advanced [OF _ k0 i0 _ kL kR, where e = e and W = W] obtain s1 where
    s1: "chunk_loop W e 0 ?k s = Inr s1" "idx s1 = idx s"
      "advanced (idx s + ?k * int W) (?k * int W) s s1"
    by auto
  have lay0: "layout_ok s ((?k - 0) * int W)"
    using layout_ok_mono [OF lay, of "?k * int W"] km t0 by simp
  have x1: "mixed e (idx s) (?k * int W) s s1"
    using chunk_loop_mixed [OF _ k0 i0 kL kR lay0 s1(1)] by simp
  let ?s1 = "s1\<lparr>idx := idx s1 + ?k * int W\<rparr>"
  have len1: "length (bufferLeft s1) = length (bufferLeft s)"
    "length (bufferRight s1) = length (bufferRight s)"
    using s1(3) by (simp_all add: advanced_def)
  have pre: "0 \<le> idx ?s1" "idx ?s1 + (?t - 0) \<le> int (length (bufferLeft ?s1))"
    "idx ?s1 + (?t - 0) \<le> int (length (bufferRight ?s1))"
    using s1(2) i0 k0 km m(3) lenL lenR len1 by simp_all
  from tail_loop_advanced [OF _ t0 pre(1) _ pre(2,3), where e = e] obtain s2 where
    s2: "tail_loop e 0 ?t ?s1 = Inr s2" "idx s2 = idx ?s1 + ?t"
      "advanced (idx ?s1 + (?t - 0)) ?t ?s1 s2"
    by auto
  have lay': "layout_ok s (?k * int W + ?t)" using lay km by simp
  have lay1: "layout_ok ?s1 (?t - 0)"
    using layout_ok_advanced [OF lay' kW0 s1(3)] by simp
  have "mixed e (idx ?s1) (?t - 0) ?s1 s2"
    by (rule tail_loop_mixed [OF _ t0 pre lay1 s2(1)]) simp
  then have x2: "mixed e (idx s + ?k * int W) ?t s1 s2" using s1(2) by simp
  have a2: "advanced (idx ?s1 + (?t - 0)) ?t s1 s2" using s2(3) by simp
  have "mixed e (idx s) (?k * int W + ?t) s s2"
    using m(3) lenL lenR km
    by (intro mixed_trans [OF lay' kW0 t0 i0 _ _ s1(3) x1 a2 x2]) linarith+
  then have x: "mixed e (idx s) ?m s s2" using km by simp
  have idx2: "idx s2 = idx s + ?m" using s2(2) s1(2) km by simp
  let ?s' = "s2\<lparr>idx := (if idx s2 \<ge> ?L then 0 else idx s2)\<rparr>"
  have seg: "simd_segment W e r s = Inr (r - ?m, ?s')"
    by (simp add: simd_segment_def Let_def s1(1) s2(1))
  from simd_segment_advanced(1) [OF W r i0 i1 lenL lenR] seg
  have adv: "advanced ?L ?m s ?s'" by auto
  have "idx ?s' = (idx s + ?m) mod ?L"
    using idx2 i0 m by auto
  then show ?thesis using seg adv x by (intro exI [of _ ?s']) simp
qed

lemma while_heads_fuel:
  "f \<le> f' \<Longrightarrow> set (while_heads f W e r s) \<subseteq> set (while_heads f' W e r s)"
proof (induction f arbitrary: f' r s)
  case 0
  show ?case by simp
next
  case (Suc f)
  then obtain g where g: "f' = Suc g" "f \<le> g" by (cases f') auto
  show ?case
  proof (cases "simd_segment W e r s")
    case (Inl err)
    then show ?thesis unfolding g(1) by simp
  next
    case (Inr p)
    obtain r' s' where p: "p = (r', s')" by (cases p)
    show ?thesis
      using Suc.IH [OF g(2), of r' s'] unfolding g(1) by (auto simp: Inr p)
  qed
qed


lemma simd_while_written:
  assumes W: "0 < W"
  shows "0 \<le> idx s \<Longrightarrow> idx s < delaySamples e \<Longrightarrow>
     delaySamples e \<le> int (length (bufferLeft s)) \<Longrightarrow>
     delaySamples e \<le> int (length (bufferRight s)) \<Longrightarrow>
     layout_ok s r \<Longrightarrow> simd_while W e r s = Some (Inr s') \<Longrightarrow> 0 \<le> j \<Longrightarrow> j < r \<Longrightarrow>
     \<exists>(r1, s1) \<in> set (while_heads (nat r) W e r s).
        r - r1 \<le> j \<and> j < r - r1 + samplesToEdge e r1 s1
      \<and> idx s1 + (j - (r - r1)) = (idx s + j) mod delaySamples e
      \<and> heap s' (outputLeft s + j)
          = heap s (inputLeft s + j) * dryMix e
            + bufferLeft s1 ! nat ((idx s + j) mod delaySamples e) * wetMix e
      \<and> heap s' (outputRight s + j)
          = heap s (inputRight s + j) * dryMix e
            + bufferRight s1 ! nat ((idx s + j) mod delaySamples e) * wetMix e"
proof (induction "nat r" arbitrary: r s j rule: less_induct)
  case less
  let ?D = "delaySamples e"
  let ?m = "samplesToEdge e r s"
  have r: "0 < r" using less.prems(7,8) by linarith
  have m: "0 < ?m" "?m \<le> r" "idx s + ?m \<le> ?D"
    using simd_segment_advanced(2-4) [OF W r less.prems(1-4)] by simp_all
  have lay_m: "layout_ok s ?m" by (rule layout_ok_mono [OF less.prems(5) m(2)])
  from simd_segment_written [OF W r less.prems(1-4) lay_m] obtain sA where
    sA: "simd_segment W e r s = Inr (r - ?m, sA)" "idx sA = (idx s + ?m) mod ?D"
      "advanced ?D ?m s sA" "mixed e (idx s) ?m s sA"
    by blast
  have rest: "simd_while W e (r - ?m) sA = Some (Inr s')"
    using less.prems(6) r sA(1) by (subst (asm) simd_while.simps) simp
  have D0: "0 < ?D" using less.prems(1,2) by linarith
  have iA: "0 \<le> idx sA" "idx sA < ?D" using sA(2) D0 by simp_all
  have lenA: "?D \<le> int (length (bufferLeft sA))" "?D \<le> int (length (bufferRight sA))"
    using sA(3) less.prems(3,4) by (simp_all add: advanced_def)
  from simd_while_advanced [OF W iA lenA, of "r - ?m"] rest
  have advA: "advanced ?D (max 0 (r - ?m)) sA s'" by auto
  have pA: "inputLeft sA = inputLeft s + ?m" "inputRight sA = inputRight s + ?m"
    "outputLeft sA = outputLeft s + ?m" "outputRight sA = outputRight s + ?m"
    and fA: "\<And>a. \<not> (outputLeft s \<le> a \<and> a < outputLeft s + ?m)
            \<Longrightarrow> \<not> (outputRight s \<le> a \<and> a < outputRight s + ?m) \<Longrightarrow> heap sA a = heap s a"
    using sA(3) by (simp_all add: advanced_def)
  have f': "\<And>a. \<not> (outputLeft sA \<le> a \<and> a < outputLeft sA + max 0 (r - ?m))
            \<Longrightarrow> \<not> (outputRight sA \<le> a \<and> a < outputRight sA + max 0 (r - ?m))
            \<Longrightarrow> heap s' a = heap sA a"
    using advA by (simp add: advanced_def)
  have lay: "outputLeft s = inputLeft s \<or> r \<le> \<bar>outputLeft s - inputLeft s\<bar>"
    "outputRight s = inputRight s \<or> r \<le> \<bar>outputRight s - inputRight s\<bar>"
    "r \<le> \<bar>outputLeft s - inputRight s\<bar>" "r \<le> \<bar>outputRight s - inputLeft s\<bar>"
    "r \<le> \<bar>outputLeft s - outputRight s\<bar>"
    using less.prems(5) by (simp_all add: layout_ok_def in_place_or_separate_def)
  have heads: "while_heads (nat r) W e r s
      = (r, s) # while_heads (nat r - 1) W e (r - ?m) sA"
  proof -
    have "nat r = Suc (nat r - 1)" using r by simp
    then show ?thesis using r sA(1) by (metis (no_types, lifting) while_heads.simps(2) old.sum.simps(6) case_prod_conv)
  qed
  show ?case
  proof (cases "j < ?m")
    case True
    have jm: "0 \<le> j \<and> j < ?m" using True less.prems(7) by simp
    have cell: "idx s + j = (idx s + j) mod ?D"
      using less.prems(1,7) True m(3) by simp
    have "heap s' (outputLeft s + j) = heap sA (outputLeft s + j)"
      "heap s' (outputRight s + j) = heap sA (outputRight s + j)"
      using True less.prems(7,8) lay(5) m by (auto intro!: f' simp: pA)
    moreover have "heap sA (outputLeft s + j)
          = heap s (inputLeft s + j) * dryMix e + bufferLeft s ! nat (idx s + j) * wetMix e"
      "heap sA (outputRight s + j)
          = heap s (inputRight s + j) * dryMix e + bufferRight s ! nat (idx s + j) * wetMix e"
      using sA(4) jm by (simp_all add: mixed_def)
    ultimately show ?thesis
      unfolding heads using True less.prems(7) cell by simp
  next
    case False
    let ?r = "r - ?m"
    let ?j = "j - ?m"
    have j': "0 \<le> ?j" "?j < ?r" using False less.prems(8) by simp_all
    have layA: "layout_ok sA ?r"
      using layout_ok_advanced [OF _ _ sA(3), of ?r] less.prems(5) m(1) by simp
    have smaller: "nat ?r < nat r" using m r by linarith
    from less.hyps [OF smaller iA lenA layA rest j'] obtain r1 s1 where
      h: "(r1, s1) \<in> set (while_heads (nat ?r) W e ?r sA)"
        "?r - r1 \<le> ?j" "?j < ?r - r1 + samplesToEdge e r1 s1"
        "idx s1 + (?j - (?r - r1)) = (idx sA + ?j) mod ?D"
        "heap s' (outputLeft sA + ?j)
          = heap sA (inputLeft sA + ?j) * dryMix e
            + bufferLeft s1 ! nat ((idx sA + ?j) mod ?D) * wetMix e"
        "heap s' (outputRight sA + ?j)
          = heap sA (inputRight sA + ?j) * dryMix e
            + bufferRight s1 ! nat ((idx sA + ?j) mod ?D) * wetMix e"
      by blast
    have fuel: "nat ?r \<le> nat r - 1" using m r by linarith
    have mem: "(r1, s1) \<in> set (while_heads (nat r) W e r s)"
      unfolding heads using while_heads_fuel [OF fuel, of W e ?r sA] h(1) by auto
    have cell: "(idx sA + ?j) mod ?D = (idx s + j) mod ?D"
      unfolding sA(2) by (simp add: mod_add_left_eq)
    have o: "outputLeft sA + ?j = outputLeft s + j" "outputRight sA + ?j = outputRight s + j"
      "inputLeft sA + ?j = inputLeft s + j" "inputRight sA + ?j = inputRight s + j"
      by (simp_all add: pA)
    have hL: "heap sA (inputLeft s + j) = heap s (inputLeft s + j)"
      using False less.prems(8) lay(1,4) m by (intro fA) (auto simp: abs_if split: if_splits)
    have hR: "heap sA (inputRight s + j) = heap s (inputRight s + j)"
      using False less.prems(8) lay(2,3) m by (intro fA) (auto simp: abs_if split: if_splits)
    have "r - r1 \<le> j \<and> j < r - r1 + samplesToEdge e r1 s1
      \<and> idx s1 + (j - (r - r1)) = (idx s + j) mod ?D
      \<and> heap s' (outputLeft s + j)
          = heap s (inputLeft s + j) * dryMix e
            + bufferLeft s1 ! nat ((idx s + j) mod ?D) * wetMix e
      \<and> heap s' (outputRight s + j)
          = heap s (inputRight s + j) * dryMix e
            + bufferRight s1 ! nat ((idx s + j) mod ?D) * wetMix e"
      using h(2-6) unfolding cell o hL hR by (simp add: algebra_simps)
    then show ?thesis using mem by blast
  qed
qed

subsection \<open>A whole block\<close>

text \<open>Output sample \<open>j\<close> of a block is written by the pass of the loop whose
  samples include \<open>j\<close>, from the cell \<open>(delayIndex + j) mod delaySamples\<close> of the
  delay line as it was when that pass began.\<close>

lemma simd_block_written:
  assumes W: "0 < W" and p: "prepared e"
    and i0: "0 \<le> delayIndex e" and i1: "delayIndex e < delaySamples e"
    and lenL: "delaySamples e \<le> int (length (delayLineLeft e))"
    and lenR: "delaySamples e \<le> int (length (delayLineRight e))"
    and lay: "in_place_or_separate inL inR outL outR numSamples"
    and run: "processBlockSIMD W e h inL inR outL outR numSamples = Some (Inr (h', e'))"
    and j: "0 \<le> j" "j < numSamples"
  shows "\<exists>(r, s) \<in> set (while_heads (nat numSamples) W e numSamples (enter e h inL inR outL outR)).
        numSamples - r \<le> j \<and> j < numSamples - r + samplesToEdge e r s
      \<and> idx s + (j - (numSamples - r)) = (delayIndex e + j) mod delaySamples e
      \<and> h' (outL + j)
          = h (inL + j) * dryMix e
            + bufferLeft s ! nat ((delayIndex e + j) mod delaySamples e) * wetMix e
      \<and> h' (outR + j)
          = h (inR + j) * dryMix e
            + bufferRight s ! nat ((delayIndex e + j) mod delaySamples e) * wetMix e"
proof -
  let ?s0 = "enter e h inL inR outL outR"
  have s0: "0 \<le> idx ?s0" "idx ?s0 < delaySamples e"
    "delaySamples e \<le> int (length (bufferLeft ?s0))"
    "delaySamples e \<le> int (length (bufferRight ?s0))" "layout_ok ?s0 numSamples"
    using i0 i1 lenL lenR lay by (simp_all add: enter_def layout_ok_def)
  from simd_while_advanced [OF W s0(1-4), of numSamples] obtain s' where
    s': "simd_while W e numSamples ?s0 = Some (Inr s')" by blast
  then have h': "h' = heap s'" using run p by (simp add: processBlockSIMD_def leave_def)
  have f: "idx ?s0 = delayIndex e" "heap ?s0 = h" "inputLeft ?s0 = inL" "inputRight ?s0 = inR"
    "outputLeft ?s0 = outL" "outputRight ?s0 = outR"
    by (simp_all add: enter_def)
  show ?thesis
    using simd_while_written [OF W s0 s' j] unfolding f h' .
qed

text \<open>On separate arrays the output blocks hold the outputs of the recurrence.\<close>

lemma simd_block_recurrence:
  assumes W: "0 < W" and p: "prepared e"
    and i0: "0 \<le> delayIndex e" and i1: "delayIndex e < delaySamples e"
    and lenL: "delaySamples e \<le> int (length (delayLineLeft e))"
    and lenR: "length (delayLineRight e) = length (delayLineLeft e)"
    and sep: "separate inL inR outL outR numSamples"
    and run: "processBlockSIMD W e h inL inR outL outR numSamples = Some (Inr (h', e'))"
  shows "stereo_at h' outL outR (nat numSamples)
     = recurrence_outputs e (stereo_at h inL inR (nat numSamples))
         (delayLineLeft e, delayLineRight e, delayIndex e)"
proof (cases "0 \<le> numSamples")
  case True
  then have n: "int (nat numSamples) = numSamples" by simp
  have lenR': "delaySamples e \<le> int (length (delayLineRight e))" using lenL lenR by simp
  have i2: "delayIndex e < int (length (delayLineLeft e))" using i1 lenL by linarith
  have sep': "separate inL inR outL outR (int (nat numSamples))" using sep n by simp
  from scalar_block_recurrence [OF p i0 i2 lenR lenL sep', of h] obtain h2 e2 where
    sc: "processBlockScalar e h inL inR outL outR numSamples = Inr (h2, e2)"
      "stereo_at h2 outL outR (nat numSamples)
         = recurrence_outputs e (stereo_at h inL inR (nat numSamples))
             (delayLineLeft e, delayLineRight e, delayIndex e)"
    unfolding n by blast
  have "h' = h2"
    using simd_equals_scalar [OF W i0 i1 lenL lenR' sep, of h] run sc(1) by simp
  then show ?thesis using sc(2) by simp
next
  case False
  then show ?thesis by (simp add: stereo_at_def samples_at_def)
qed

text \<open>
  Claim C10. For a prepared engine with \<open>0 \<le> delayIndex < delaySamples \<le>
  maxDelaySamples\<close> (both vectors \<open>maxDelaySamples\<close> long, as \<open>prepare\<close> leaves
  them) \<open>processBlockSIMD\<close> returns, without an access outside a vector; the
  cursor on return is again in \<open>[0, delaySamples)\<close>; the output pointers have
  moved by exactly \<open>numSamples\<close> and the sample memory is unchanged outside
  the \<open>numSamples\<close> samples at each output pointer.
  Each of these \<open>numSamples\<close> samples is written: when the block is processed in
  place or on separate arrays, output sample \<open>j\<close> of each channel holds
  \<open>input j * dry + delayed * wet\<close>, where \<open>input j\<close> is the input sample as it
  was on entry and \<open>delayed\<close> is cell \<open>(delayIndex + j) mod delaySamples\<close> of the
  delay line as it was when the pass of the loop that handles \<open>j\<close> began; on
  separate arrays the two output blocks are the outputs of the recurrence run
  over the input block.
  The cells from \<open>delaySamples\<close> on are unchanged, and the same call on the
  engine cut to its first \<open>delaySamples\<close> cells returns the same sample memory
  and cells, so every index used is in \<open>[0, delaySamples)\<close>; each time the loop
  body is entered \<open>samplesToEdge\<close> is positive and stays before the edge.
  The precondition on the cursor is needed and is not restored by the call: the
  small engine reaches cursor 3 with a three-sample block, \<open>setDelaySeconds\<close>
  then shrinks the loop to 2 samples and leaves the cursor at 3; on that engine
  the first \<open>samplesToEdge\<close> of a two-sample block is -1 and the call writes a
  third output sample (address 22, outside the block at 20 and 21).

  What is proved is about the indices, the number of passes and the values
  stored. A vector is loaded and stored here at any address: the vector groups
  start at the cursor and at the block pointers as they are, which need not be
  multiples of the vector width, and a requirement of the vector library
  (\<^verbatim>\<open>juce::dsp::SIMDRegister\<close>, not part of this repository) that these addresses
  be aligned is outside the model and outside this theorem.
\<close>

theorem simd_safe_under_entry_precondition:
  assumes "0 < W" and "prepared e"
    and "0 \<le> delayIndex e" and "delayIndex e < delaySamples e"
    and "delaySamples e \<le> maxDelaySamples e"
    and "length (delayLineLeft e) = nat (maxDelaySamples e)"
    and "length (delayLineRight e) = nat (maxDelaySamples e)"
  shows "(\<exists>h' e' s'.
            processBlockSIMD W e h inL inR outL outR numSamples = Some (Inr (h', e'))
          \<and> simd_while W e numSamples (enter e h inL inR outL outR) = Some (Inr s')
          \<and> (h', e') = leave e s'
          \<and> 0 \<le> delayIndex e' \<and> delayIndex e' < delaySamples e
          \<and> outputLeft s' = outL + max 0 numSamples
          \<and> outputRight s' = outR + max 0 numSamples
          \<and> inputLeft s' = inL + max 0 numSamples
          \<and> inputRight s' = inR + max 0 numSamples
          \<and> (\<forall>a. \<not> (outL \<le> a \<and> a < outL + max 0 numSamples)
                 \<and> \<not> (outR \<le> a \<and> a < outR + max 0 numSamples) \<longrightarrow> h' a = h a)
          \<and> (in_place_or_separate inL inR outL outR numSamples \<longrightarrow>
               (\<forall>j. 0 \<le> j \<and> j < numSamples \<longrightarrow>
                  (\<exists>(r, s) \<in> set (while_heads (nat numSamples) W e numSamples
                                    (enter e h inL inR outL outR)).
                       numSamples - r \<le> j \<and> j < numSamples - r + samplesToEdge e r s
                     \<and> idx s + (j - (numSamples - r)) = (delayIndex e + j) mod delaySamples e
                     \<and> h' (outL + j)
                         = h (inL + j) * dryMix e
                           + bufferLeft s ! nat ((delayIndex e + j) mod delaySamples e) * wetMix e
                     \<and> h' (outR + j)
                         = h (inR + j) * dryMix e
                           + bufferRight s ! nat ((delayIndex e + j) mod delaySamples e)
                             * wetMix e)))
          \<and> (separate inL inR outL outR numSamples \<longrightarrow>
               stereo_at h' outL outR (nat numSamples)
                 = recurrence_outputs e (stereo_at h inL inR (nat numSamples))
                     (delayLineLeft e, delayLineRight e, delayIndex e))
          \<and> length (delayLineLeft e') = length (delayLineLeft e)
          \<and> length (delayLineRight e') = length (delayLineRight e)
          \<and> drop (nat (delaySamples e)) (delayLineLeft e')
              = drop (nat (delaySamples e)) (delayLineLeft e)
          \<and> drop (nat (delaySamples e)) (delayLineRight e')
              = drop (nat (delaySamples e)) (delayLineRight e)
          \<and> processBlockSIMD W (active_part e) h inL inR outL outR numSamples
              = Some (Inr (h', active_part e')))
     \<and> list_all (\<lambda>(r, s). 0 < samplesToEdge e r s \<and> samplesToEdge e r s \<le> r
                    \<and> 0 \<le> idx s \<and> idx s + samplesToEdge e r s \<le> delaySamples e)
           (while_heads fuel W e numSamples (enter e h inL inR outL outR))
     \<and> do_call 4 (ProcessBlockSIMD (\<lambda>a. 0) 0 10 20 30 3) engine_4
           = Some (engine_4\<lparr>delayIndex := 3\<rparr>)
     \<and> setDelaySeconds (1 / 2) (engine_4\<lparr>delayIndex := 3\<rparr>) = Inr engine_stale
     \<and> delayIndex engine_stale = 3 \<and> delaySamples engine_stale = 2
     \<and> samplesToEdge engine_stale 2 (enter engine_stale ramp 0 10 20 30) = - 1
     \<and> map (fst (projr (the (processBlockSIMD 4 engine_stale ramp 0 10 20 30 2)))) [20, 21, 22]
           = [1 / 2, 1 / 2, 1]
     \<and> ramp 22 = 0"
proof -
  have lenL: "delaySamples e \<le> int (length (delayLineLeft e))"
    and lenR: "delaySamples e \<le> int (length (delayLineRight e))"
    using assms(4-7) by linarith+
  have lenLR: "length (delayLineRight e) = length (delayLineLeft e)"
    using assms(6,7) by simp
  from simd_block_safe [OF assms(1-4) lenL lenR, of numSamples h inL inR outL outR]
  obtain s' where
    s': "simd_while W e numSamples (enter e h inL inR outL outR) = Some (Inr s')"
      "processBlockSIMD W e h inL inR outL outR numSamples = Some (Inr (leave e s'))"
      "0 \<le> idx s'" "idx s' < delaySamples e"
      "advanced (delaySamples e) (max 0 numSamples) (enter e h inL inR outL outR) s'"
      "processBlockSIMD W (active_part e) h inL inR outL outR numSamples
         = Some (Inr (heap s', active_part (snd (leave e s'))))"
    by blast
  have run: "processBlockSIMD W e h inL inR outL outR numSamples
      = Some (Inr (heap s', snd (leave e s')))"
    using s'(2) by (simp add: leave_def)
  have cells: "in_place_or_separate inL inR outL outR numSamples \<longrightarrow>
               (\<forall>j. 0 \<le> j \<and> j < numSamples \<longrightarrow>
                  (\<exists>(r, s) \<in> set (while_heads (nat numSamples) W e numSamples
                                    (enter e h inL inR outL outR)).
                       numSamples - r \<le> j \<and> j < numSamples - r + samplesToEdge e r s
                     \<and> idx s + (j - (numSamples - r)) = (delayIndex e + j) mod delaySamples e
                     \<and> heap s' (outL + j)
                         = h (inL + j) * dryMix e
                           + bufferLeft s ! nat ((delayIndex e + j) mod delaySamples e) * wetMix e
                     \<and> heap s' (outR + j)
                         = h (inR + j) * dryMix e
                           + bufferRight s ! nat ((delayIndex e + j) mod delaySamples e)
                             * wetMix e))"
    using simd_block_written [OF assms(1-4) lenL lenR _ run] by blast
  have outs: "separate inL inR outL outR numSamples \<longrightarrow>
               stereo_at (heap s') outL outR (nat numSamples)
                 = recurrence_outputs e (stereo_at h inL inR (nat numSamples))
                     (delayLineLeft e, delayLineRight e, delayIndex e)"
    using simd_block_recurrence [OF assms(1-4) lenL lenLR _ run] by blast
  have block: "\<exists>h' e' s'.
            processBlockSIMD W e h inL inR outL outR numSamples = Some (Inr (h', e'))
          \<and> simd_while W e numSamples (enter e h inL inR outL outR) = Some (Inr s')
          \<and> (h', e') = leave e s'
          \<and> 0 \<le> delayIndex e' \<and> delayIndex e' < delaySamples e
          \<and> outputLeft s' = outL + max 0 numSamples
          \<and> outputRight s' = outR + max 0 numSamples
          \<and> inputLeft s' = inL + max 0 numSamples
          \<and> inputRight s' = inR + max 0 numSamples
          \<and> (\<forall>a. \<not> (outL \<le> a \<and> a < outL + max 0 numSamples)
                 \<and> \<not> (outR \<le> a \<and> a < outR + max 0 numSamples) \<longrightarrow> h' a = h a)
          \<and> (in_place_or_separate inL inR outL outR numSamples \<longrightarrow>
               (\<forall>j. 0 \<le> j \<and> j < numSamples \<longrightarrow>
                  (\<exists>(r, s) \<in> set (while_heads (nat numSamples) W e numSamples
                                    (enter e h inL inR outL outR)).
                       numSamples - r \<le> j \<and> j < numSamples - r + samplesToEdge e r s
                     \<and> idx s + (j - (numSamples - r)) = (delayIndex e + j) mod delaySamples e
                     \<and> h' (outL + j)
                         = h (inL + j) * dryMix e
                           + bufferLeft s ! nat ((delayIndex e + j) mod delaySamples e) * wetMix e
                     \<and> h' (outR + j)
                         = h (inR + j) * dryMix e
                           + bufferRight s ! nat ((delayIndex e + j) mod delaySamples e)
                             * wetMix e)))
          \<and> (separate inL inR outL outR numSamples \<longrightarrow>
               stereo_at h' outL outR (nat numSamples)
                 = recurrence_outputs e (stereo_at h inL inR (nat numSamples))
                     (delayLineLeft e, delayLineRight e, delayIndex e))
          \<and> length (delayLineLeft e') = length (delayLineLeft e)
          \<and> length (delayLineRight e') = length (delayLineRight e)
          \<and> drop (nat (delaySamples e)) (delayLineLeft e')
              = drop (nat (delaySamples e)) (delayLineLeft e)
          \<and> drop (nat (delaySamples e)) (delayLineRight e')
              = drop (nat (delaySamples e)) (delayLineRight e)
          \<and> processBlockSIMD W (active_part e) h inL inR outL outR numSamples
              = Some (Inr (h', active_part e'))"
    apply (rule exI [of _ "heap s'"])
    apply (rule exI [of _ "snd (leave e s')"])
    apply (rule exI [of _ s'])
    apply (intro conjI cells outs)
    using s' by (simp_all add: leave_def advanced_def enter_def)
  have s0: "0 \<le> idx (enter e h inL inR outL outR)"
    "idx (enter e h inL inR outL outR) < delaySamples e"
    "delaySamples e \<le> int (length (bufferLeft (enter e h inL inR outL outR)))"
    "delaySamples e \<le> int (length (bufferRight (enter e h inL inR outL outR)))"
    using assms(3,4) lenL lenR by (simp_all add: enter_def)
  note heads = while_heads_positive [OF assms(1) s0, of fuel numSamples]
  show ?thesis
    using block heads stale_cursor_overruns by blast
qed

text \<open>The small engine (loop of 4 cells, vector width 4) on a block of 6 samples of
  value 1: one vector group, the wrap of the cursor, then a scalar tail of two
  samples that read the cells the group stored. On separate arrays and in place
  the six output samples of each channel are 0.5, 0.5, 0.5, 0.5, 1, 1, and the
  seventh cell keeps its value; the last two lines evaluate the same cells from
  the definitions.\<close>

theorem simd_safe_under_entry_precondition_witness:
  "(0::nat) < 4 \<and> prepared engine_4 \<and> 0 \<le> delayIndex engine_4
   \<and> delayIndex engine_4 < delaySamples engine_4
   \<and> delaySamples engine_4 \<le> maxDelaySamples engine_4
   \<and> length (delayLineLeft engine_4) = nat (maxDelaySamples engine_4)
   \<and> length (delayLineRight engine_4) = nat (maxDelaySamples engine_4)
   \<and> separate 0 10 20 30 6
   \<and> (\<exists>h' e'. processBlockSIMD 4 engine_4 ramp 0 10 20 30 6 = Some (Inr (h', e'))
         \<and> 0 \<le> delayIndex e' \<and> delayIndex e' < 4
         \<and> stereo_at h' 20 30 6
             = [(1 / 2, 1 / 2), (1 / 2, 1 / 2), (1 / 2, 1 / 2), (1 / 2, 1 / 2), (1, 1), (1, 1)]
         \<and> map ramp [20, 21, 22, 23, 24, 25, 26] = [0, 0, 0, 0, 0, 0, 0]
         \<and> h' 26 = 0 \<and> h' 36 = 0 \<and> h' 19 = 1)
   \<and> in_place_or_separate 0 10 0 10 6
   \<and> (\<exists>h' e'. processBlockSIMD 4 engine_4 ramp 0 10 0 10 6 = Some (Inr (h', e'))
         \<and> map ramp [0, 1, 2, 3, 4, 5, 6] = [1, 1, 1, 1, 1, 1, 1]
         \<and> map h' [0, 1, 2, 3, 4, 5, 6] = [1 / 2, 1 / 2, 1 / 2, 1 / 2, 1, 1, 1]
         \<and> map h' [10, 11, 12, 13, 14, 15, 16] = [1 / 2, 1 / 2, 1 / 2, 1 / 2, 1, 1, 1])
   \<and> map (fst (projr (the (processBlockSIMD 4 engine_4 ramp 0 10 20 30 6))))
         [20, 21, 22, 23, 24, 25, 26] = [1 / 2, 1 / 2, 1 / 2, 1 / 2, 1, 1, 0]
   \<and> map (fst (projr (the (processBlockSIMD 4 engine_4 ramp 0 10 0 10 6))))
         [0, 1, 2, 3, 4, 5, 6] = [1 / 2, 1 / 2, 1 / 2, 1 / 2, 1, 1, 1]"
proof -
  have pre: "(0::nat) < 4" "prepared engine_4" "0 \<le> delayIndex engine_4"
    "delayIndex engine_4 < delaySamples engine_4"
    "delaySamples engine_4 \<le> maxDelaySamples engine_4"
    "length (delayLineLeft engine_4) = nat (maxDelaySamples engine_4)"
    "length (delayLineRight engine_4) = nat (maxDelaySamples engine_4)"
    by (simp_all add: engine_4_def)
  have d: "delaySamples engine_4 = 4" by (simp add: engine_4_def)
  have sep: "separate 0 10 20 30 6" by (simp add: separate_def)
  have lay: "in_place_or_separate 0 10 0 10 6" by (simp add: in_place_or_separate_def)
  have outs: "recurrence_outputs engine_4 (stereo_at ramp 0 10 (nat 6))
        (delayLineLeft engine_4, delayLineRight engine_4, delayIndex engine_4)
      = [(1 / 2, 1 / 2), (1 / 2, 1 / 2), (1 / 2, 1 / 2), (1 / 2, 1 / 2), (1, 1), (1, 1)]"
    by (simp add: engine_4_def stereo_at_def samples_at_def ramp_def clamp_def
        eval_nat_numeral upt_rec)
  from simd_safe_under_entry_precondition [OF pre, of ramp 0 10 20 30 6 0]
  obtain h' e' where
    a: "processBlockSIMD 4 engine_4 ramp 0 10 20 30 6 = Some (Inr (h', e'))"
      "0 \<le> delayIndex e'" "delayIndex e' < 4"
      "\<forall>a. \<not> (20 \<le> a \<and> a < 20 + max 0 6) \<and> \<not> (30 \<le> a \<and> a < 30 + max 0 6)
          \<longrightarrow> h' a = ramp a"
      "separate 0 10 20 30 6 \<longrightarrow>
         stereo_at h' 20 30 (nat 6)
           = recurrence_outputs engine_4 (stereo_at ramp 0 10 (nat 6))
               (delayLineLeft engine_4, delayLineRight engine_4, delayIndex engine_4)"
    unfolding d by blast
  have a5: "stereo_at h' 20 30 6
      = [(1 / 2, 1 / 2), (1 / 2, 1 / 2), (1 / 2, 1 / 2), (1 / 2, 1 / 2), (1, 1), (1, 1)]"
    using a(5) sep outs by simp
  have a4: "h' 26 = 0" "h' 36 = 0" "h' 19 = 1"
    using a(4) by (simp_all add: ramp_def)
  have first: "\<exists>h' e'. processBlockSIMD 4 engine_4 ramp 0 10 20 30 6 = Some (Inr (h', e'))
         \<and> 0 \<le> delayIndex e' \<and> delayIndex e' < 4
         \<and> stereo_at h' 20 30 6
             = [(1 / 2, 1 / 2), (1 / 2, 1 / 2), (1 / 2, 1 / 2), (1 / 2, 1 / 2), (1, 1), (1, 1)]
         \<and> map ramp [20, 21, 22, 23, 24, 25, 26] = [0, 0, 0, 0, 0, 0, 0]
         \<and> h' 26 = 0 \<and> h' 36 = 0 \<and> h' 19 = 1"
    using a(1-3) a5 a4 by (intro exI [of _ h'] exI [of _ e']) (simp add: ramp_def)
  from simd_safe_under_entry_precondition [OF pre, of ramp 0 10 0 10 6 0]
  obtain g' f' where
    b: "processBlockSIMD 4 engine_4 ramp 0 10 0 10 6 = Some (Inr (g', f'))"
      "\<forall>a. \<not> (0 \<le> a \<and> a < 0 + max 0 6) \<and> \<not> (10 \<le> a \<and> a < 10 + max 0 6)
          \<longrightarrow> g' a = ramp a"
      "in_place_or_separate 0 10 0 10 6 \<longrightarrow>
         (\<forall>j. 0 \<le> j \<and> j < 6 \<longrightarrow>
            (\<exists>(r, s) \<in> set (while_heads (nat 6) 4 engine_4 6 (enter engine_4 ramp 0 10 0 10)).
                 6 - r \<le> j \<and> j < 6 - r + samplesToEdge engine_4 r s
               \<and> idx s + (j - (6 - r)) = (delayIndex engine_4 + j) mod delaySamples engine_4
               \<and> g' (0 + j)
                   = ramp (0 + j) * dryMix engine_4
                     + bufferLeft s ! nat ((delayIndex engine_4 + j) mod delaySamples engine_4)
                       * wetMix engine_4
               \<and> g' (10 + j)
                   = ramp (10 + j) * dryMix engine_4
                     + bufferRight s ! nat ((delayIndex engine_4 + j) mod delaySamples engine_4)
                       * wetMix engine_4))"
    by blast
  have c: "\<And>j. 0 \<le> j \<Longrightarrow> j < 6 \<Longrightarrow>
            (\<exists>(r, s) \<in> set (while_heads (nat 6) 4 engine_4 6 (enter engine_4 ramp 0 10 0 10)).
                 6 - r \<le> j \<and> j < 6 - r + samplesToEdge engine_4 r s
               \<and> idx s + (j - (6 - r)) = (delayIndex engine_4 + j) mod delaySamples engine_4
               \<and> g' (0 + j)
                   = ramp (0 + j) * dryMix engine_4
                     + bufferLeft s ! nat ((delayIndex engine_4 + j) mod delaySamples engine_4)
                       * wetMix engine_4
               \<and> g' (10 + j)
                   = ramp (10 + j) * dryMix engine_4
                     + bufferRight s ! nat ((delayIndex engine_4 + j) mod delaySamples engine_4)
                       * wetMix engine_4)"
    using b(3) lay by blast
  have c0: "g' 0 = 1 / 2 \<and> g' 10 = 1 / 2"
    using c [of 0] by (simp add: engine_4_def eval_defs eval_nat_numeral ramp_def)
  have c1: "g' 1 = 1 / 2 \<and> g' 11 = 1 / 2"
    using c [of 1] by (simp add: engine_4_def eval_defs eval_nat_numeral ramp_def)
  have c2: "g' 2 = 1 / 2 \<and> g' 12 = 1 / 2"
    using c [of 2] by (simp add: engine_4_def eval_defs eval_nat_numeral ramp_def)
  have c3: "g' 3 = 1 / 2 \<and> g' 13 = 1 / 2"
    using c [of 3] by (simp add: engine_4_def eval_defs eval_nat_numeral ramp_def)
  have c4: "g' 4 = 1 \<and> g' 14 = 1"
    using c [of 4] by (simp add: engine_4_def eval_defs eval_nat_numeral ramp_def)
  have c5: "g' 5 = 1 \<and> g' 15 = 1"
    using c [of 5] by (simp add: engine_4_def eval_defs eval_nat_numeral ramp_def)
  have c6: "g' 6 = 1" "g' 16 = 1"
    using b(2) by (simp_all add: ramp_def)
  have second: "\<exists>h' e'. processBlockSIMD 4 engine_4 ramp 0 10 0 10 6 = Some (Inr (h', e'))
         \<and> map ramp [0, 1, 2, 3, 4, 5, 6] = [1, 1, 1, 1, 1, 1, 1]
         \<and> map h' [0, 1, 2, 3, 4, 5, 6] = [1 / 2, 1 / 2, 1 / 2, 1 / 2, 1, 1, 1]
         \<and> map h' [10, 11, 12, 13, 14, 15, 16] = [1 / 2, 1 / 2, 1 / 2, 1 / 2, 1, 1, 1]"
    using b(1) c0 c1 c2 c3 c4 c5 c6
    by (intro exI [of _ g'] exI [of _ f']) (simp add: ramp_def)
  have run: "map (fst (projr (the (processBlockSIMD 4 engine_4 ramp 0 10 20 30 6))))
         [20, 21, 22, 23, 24, 25, 26] = [1 / 2, 1 / 2, 1 / 2, 1 / 2, 1, 1, 0]"
    "map (fst (projr (the (processBlockSIMD 4 engine_4 ramp 0 10 0 10 6))))
         [0, 1, 2, 3, 4, 5, 6] = [1 / 2, 1 / 2, 1 / 2, 1 / 2, 1, 1, 1]"
    by (simp_all add: engine_4_def ramp_def eval_defs eval_nat_numeral)
  show ?thesis
    using pre sep lay first second run by blast
qed

section \<open>Processing in place: the input is read back after the output is written\<close>

text \<open>
  \<open>processBlock\<close> hands the engine the same pointer as input and as output of
  each channel. Both scalar loops store the output sample first and read
  \<^verbatim>\<open>inputLeft[i]\<close> (\<^verbatim>\<open>*inputLeft\<close>) again for the value written to the delay
  line, so in place that second read returns the output sample. The vector
  groups of the SIMD path keep the input in a register and are not affected.
\<close>

text \<open>One sample processed in place, for any state within the bounds of the
  delay lines: the cell at the cursor receives the clamp of
  \<open>output + feedback * delayed\<close>, where \<open>output = input * dry + delayed * wet\<close>.\<close>

lemma process_sample_in_place:
  assumes "outputLeft s = inputLeft s" and "outputRight s = inputRight s"
    and "inputLeft s \<noteq> inputRight s"
    and "0 \<le> idx s" and "idx s < int (length (bufferLeft s))"
    and "idx s < int (length (bufferRight s))"
  shows "process_sample e i s =
     Inr (s\<lparr>heap := (heap s)
              (inputLeft s + i :=
                 heap s (inputLeft s + i) * dryMix e + bufferLeft s ! nat (idx s) * wetMix e,
               inputRight s + i :=
                 heap s (inputRight s + i) * dryMix e + bufferRight s ! nat (idx s) * wetMix e),
            bufferLeft := (bufferLeft s)[nat (idx s) := jlimit (- 1) 1
              ((heap s (inputLeft s + i) * dryMix e + bufferLeft s ! nat (idx s) * wetMix e)
                 + feedback e * bufferLeft s ! nat (idx s))],
            bufferRight := (bufferRight s)[nat (idx s) := jlimit (- 1) 1
              ((heap s (inputRight s + i) * dryMix e + bufferRight s ! nat (idx s) * wetMix e)
                 + feedback e * bufferRight s ! nat (idx s))]\<rparr>)"
  using assms by (simp add: process_sample_def buf_read_def Let_def)

lemma engine_48k_eq:
  "engine_48k = SharcDelayLine_default\<lparr>delayLineLeft := replicate 240000 0,
      delayLineRight := replicate 240000 0, prepared := True\<rparr>"
  by (simp add: engine_48k_def prepare_def static_cast_int_nonneg reset_def
      SharcDelayLine_default_def vector_resize_def map_replicate_const)

lemma four_lanes: "replicate 4 x = [x, x, x, x]" "[0..<4] = [0, 1, 2, 3]"
  by (simp_all add: eval_nat_numeral)

lemmas plugin_defs = processBlock_def engine_48k_eq SharcDelayLine_default_def
  setDelaySeconds_def static_cast_int_nonneg setFeedback_def setWetMix_def setDryMix_def

text \<open>
  Claim C1 at the call the plug-in makes: the engine prepared at 48 kHz, the
  default parameters (delay 1 s, feedback 0.3, wet 0.5, dry 0.5), scalar mode, a
  block of one sample of value 1 on both channels (channel data at addresses 0
  and 1000). The output sample is 1 * 0.5 + 0 * 0.5 = 0.5, as claimed. The claim
  has clamp (1 + 0.3 * 0) = 1 stored into cell 0 of the delay line; the code
  stores 0.5, the output sample it has just written over the input.
\<close>

theorem scalar_in_place_feeds_output_back:
  "fst (projr (the (processBlock 4 False 1 (3 / 10) (1 / 2) (1 / 2) False 0 1000 1
          (\<lambda>a. 1) engine_48k))) 0 = 1 / 2
   \<and> delayLineLeft (snd (projr (the (processBlock 4 False 1 (3 / 10) (1 / 2) (1 / 2) False
          0 1000 1 (\<lambda>a. 1) engine_48k)))) ! 0 = 1 / 2
   \<and> jlimit (- 1) 1 ((\<lambda>a. 1) (0::int) + 3 / 10 * delayLineLeft engine_48k ! 0) = (1::real)"
  by (simp add: plugin_defs eval_defs)

text \<open>
  Claim C2 at the call the plug-in makes: the engine prepared at 48 kHz, delay
  0.001 s (48 samples, the shortest delay of the plug-in), feedback 0.3, wet 0.5,
  dry 0.5, a block of 52 samples in place holding a unit impulse, vector width
  4. The first echo is output sample 48: in scalar mode it is 0.25, in SIMD mode
  0.5. The scalar loop had stored the output sample 0.5 in the delay line, the
  vector group the input sample 1.
\<close>

theorem scalar_and_simd_differ_in_place:
  "map (fst (projr (the (processBlock 4 False (1 / 1000) (3 / 10) (1 / 2) (1 / 2) False
          0 1000 52 impulse engine_48k)))) [0, 48]
     = [1 / 2, 1 / 4]
   \<and> map (fst (projr (the (processBlock 4 False (1 / 1000) (3 / 10) (1 / 2) (1 / 2) True
          0 1000 52 impulse engine_48k)))) [0, 48]
     = [1 / 2, 1 / 2]"
  by (simp add: plugin_defs impulse_def eval_defs four_lanes)

text \<open>
  Claim C7 at the call the plug-in makes: the reset engine at 48 kHz, delay
  0.001 s (D = 48), feedback f = 0.5, wet 1, dry 1, scalar mode, a unit impulse
  followed by silence, 97 samples in place. The input at samples 48 and 96 is
  silence, so the output there is the wet component of the first two echoes:
  it is 1 both times (the delay line receives clamp (1 + 0.5 * 1) = 1 at each
  pass), where the claim has the second echo f times the first.
\<close>

theorem in_place_echo_does_not_decay:
  "map (fst (projr (the (processBlock 4 False (1 / 1000) (1 / 2) 1 1 False
          0 1000 97 impulse engine_48k)))) [48, 96]
     = [1, 1]
   \<and> map impulse [48, 96] = [0, 0]"
  by (simp add: plugin_defs impulse_def eval_defs)

end
